theory Spec2Isabelle
  imports Complex_Main "HOL-Library.Multiset"
begin

section \<open>Spectrum Studio: playlist, offline render pipeline, recorder pipeline\<close>

text \<open>
  The repository holds two revisions of the \<^verbatim>\<open>StudioPhase\<close> component.
  \<^item> \<^verbatim>\<open>src/vite.config.ts\<close> (from line 10 on) is the offline revision: WebCodecs
    encoders, an \<^verbatim>\<open>OfflineAudioContext\<close> and the mp4 muxer
    (\<^verbatim>\<open>startOfflineRendering\<close>, \<^verbatim>\<open>cancelRendering\<close> by page reload).
  \<^item> \<^verbatim>\<open>src/components/StudioPhase.tsx\<close> is the recorder revision: a
    \<^verbatim>\<open>MediaRecorder\<close> streaming to disk through a write queue
    (\<^verbatim>\<open>startRendering\<close>, \<^verbatim>\<open>onstop\<close>, \<^verbatim>\<open>cancelRendering\<close>).
  \<^verbatim>\<open>moveTrack\<close>, \<^verbatim>\<open>playlistDuration\<close> and \<^verbatim>\<open>totalDuration\<close> are the same in both.

  JavaScript numbers are doubles: a value is a rational (\<^typ>\<open>rat\<close>) and every
  arithmetic operation of the code rounds its exact result to the nearest double. Frame
  and sample counts are \<^typ>\<open>nat\<close> and \<^typ>\<open>int\<close>. Calls into the browser (file picker,
  decoder, codec probe, canvas) are inputs of the model, collected in an environment
  record; what the offline audio context and the muxer library do with their arguments
  is written out; the order of the calls the code makes is recorded as a list of events.
\<close>

subsection \<open>JavaScript numbers\<close>

text \<open>
  Rounding to the nearest double, ties to the even mantissa: a positive value is scaled
  by a power of two into the range from \<open>2\<^sup>5\<^sup>2\<close> up to \<open>2\<^sup>5\<^sup>3\<close>, rounded to an integer
  there (the 53-bit mantissa), and scaled back. Overflow to \<^verbatim>\<open>Infinity\<close>, subnormal
  numbers and \<^verbatim>\<open>NaN\<close> are not modelled.
\<close>

definition roundHalfEven :: "rat \<Rightarrow> int" where
  "roundHalfEven m =
     (if m - of_int \<lfloor>m\<rfloor> < 1 / 2 then \<lfloor>m\<rfloor>
      else if 1 / 2 < m - of_int \<lfloor>m\<rfloor> then \<lfloor>m\<rfloor> + 1
      else if even \<lfloor>m\<rfloor> then \<lfloor>m\<rfloor> else \<lfloor>m\<rfloor> + 1)"

function dblPos :: "rat \<Rightarrow> rat" where
  "dblPos x =
     (if 2 ^ 53 \<le> x then 2 * dblPos (x / 2)
      else if 0 < x \<and> x < 2 ^ 52 then dblPos (2 * x) / 2
      else of_int (roundHalfEven x))"
  by pat_completeness auto
termination
proof (relation "measure (\<lambda>x. if 2 ^ 53 \<le> x then nat \<lfloor>x\<rfloor>
                               else if 0 < x \<and> x < 2 ^ 52 then nat \<lceil>2 ^ 52 / x\<rceil> else 0)")
  show "wf (measure (\<lambda>x::rat. if 2 ^ 53 \<le> x then nat \<lfloor>x\<rfloor>
                               else if 0 < x \<and> x < 2 ^ 52 then nat \<lceil>2 ^ 52 / x\<rceil> else 0))"
    by simp
next
  fix x :: rat
  assume big: "2 ^ 53 \<le> x"
  have "x / 2 < 2 ^ 52 \<Longrightarrow> False"
    using big by simp
  moreover have "\<lfloor>x / 2\<rfloor> < \<lfloor>x\<rfloor>"
  proof -
    have "x / 2 \<le> x - 1" using big by simp
    then have "\<lfloor>x / 2\<rfloor> \<le> \<lfloor>x - 1\<rfloor>" by (rule floor_mono)
    then show ?thesis by simp
  qed
  moreover have "0 < \<lfloor>x\<rfloor>"
    using big by (simp add: floor_less_iff[symmetric] not_less[symmetric] del: floor_less_iff)
  ultimately show "(x / 2, x) \<in> measure (\<lambda>x. if 2 ^ 53 \<le> x then nat \<lfloor>x\<rfloor>
                               else if 0 < x \<and> x < 2 ^ 52 then nat \<lceil>2 ^ 52 / x\<rceil> else 0)"
    using big by auto
next
  fix x :: rat
  assume nbig: "\<not> 2 ^ 53 \<le> x" and small: "0 < x \<and> x < 2 ^ 52"
  let ?c = "2 ^ 52 / x"
  have c: "1 < ?c" using small by simp
  have "0 < ?c" using small by simp
  then have pos: "0 < \<lceil>?c\<rceil>" by (simp only: zero_less_ceiling)
  have half: "\<lceil>2 ^ 52 / (2 * x)\<rceil> < \<lceil>?c\<rceil>" if "2 * x < 2 ^ 52"
  proof -
    have c2: "2 < ?c" using that small by (simp add: field_simps)
    have "of_int \<lceil>?c / 2\<rceil> < ?c / 2 + 1" using ceiling_correct[of "?c / 2"] by linarith
    also have "\<dots> < ?c" using c2 by simp
    also have "\<dots> \<le> of_int \<lceil>?c\<rceil>" by (rule le_of_int_ceiling)
    finally have "\<lceil>?c / 2\<rceil> < \<lceil>?c\<rceil>" by simp
    then show ?thesis by (simp add: field_simps)
  qed
  have "\<not> 2 ^ 53 \<le> 2 * x" using small by simp
  then show "(2 * x, x) \<in> measure (\<lambda>x. if 2 ^ 53 \<le> x then nat \<lfloor>x\<rfloor>
                               else if 0 < x \<and> x < 2 ^ 52 then nat \<lceil>2 ^ 52 / x\<rceil> else 0)"
    using nbig small pos half by auto
qed

declare dblPos.simps [simp del]

definition dbl :: "rat \<Rightarrow> rat" where
  "dbl x = (if x = 0 then 0 else if 0 < x then dblPos x else - dblPos (- x))"

subsection \<open>JavaScript arrays\<close>

text \<open>
  A JavaScript array read out of range gives \<^verbatim>\<open>undefined\<close>, and a write out of range
  extends the array with holes. An entry is \<^term>\<open>None\<close> for \<^verbatim>\<open>undefined\<close>.
\<close>

definition js_get :: "'a option list \<Rightarrow> nat \<Rightarrow> 'a option" where
  "js_get xs i = (if i < length xs then xs ! i else None)"

definition js_set :: "'a option list \<Rightarrow> nat \<Rightarrow> 'a option \<Rightarrow> 'a option list" where
  "js_set xs i v =
     (if i < length xs then xs[i := v]
      else xs @ replicate (i - length xs) None @ [v])"

subsection \<open>Playlist management\<close>

datatype direction = Up | Down

text \<open>
  \<^verbatim>\<open>moveTrack(index, direction)\<close>: the early return leaves the playlist state as it
  is; otherwise a copy is made, the two entries are read, then written back crosswise
  (the destructuring assignment evaluates its right-hand side first), and the copy
  becomes the playlist. \<^verbatim>\<open>playlist.length - 1\<close> is \<open>-1\<close> on the empty playlist, so
  the comparison is made on integers.
\<close>

definition moveTrack :: "'a option list \<Rightarrow> nat \<Rightarrow> direction \<Rightarrow> 'a option list" where
  "moveTrack playlist index direction =
     (if (direction = Up \<and> index = 0) \<or>
         (direction = Down \<and> int index = int (length playlist) - 1)
      then playlist
      else
        let newPlaylist = playlist;
            targetIndex = (if direction = Up then index - 1 else index + 1);
            fromTarget = js_get newPlaylist targetIndex;
            fromIndex = js_get newPlaylist index
        in js_set (js_set newPlaylist index fromTarget) targetIndex fromIndex)"

subsection \<open>Tracks, settings and durations\<close>

text \<open>
  \<^verbatim>\<open>AudioTrack\<close> and \<^verbatim>\<open>EncodingSettings\<close> are declared in \<^verbatim>\<open>../types\<close>, which is
  not among the sources; the fields are the ones the component reads. The file of a
  track is its raw bytes.
\<close>

record audioTrack =
  track_id :: string
  duration :: rat
  track_file :: "nat list"

record encodingSettings =
  loopCount :: nat
  audioBitrate :: nat

record renderConfig =
  preset_id :: string
  fps :: nat
  bitrate :: nat

definition RENDER_PRESETS :: "renderConfig list" where
  "RENDER_PRESETS =
     [\<lparr>preset_id = ''high'', fps = 60, bitrate = 8000000\<rparr>,
      \<lparr>preset_id = ''balanced'', fps = 30, bitrate = 5000000\<rparr>,
      \<lparr>preset_id = ''fast'', fps = 30, bitrate = 2500000\<rparr>]"

text \<open>
  \<^verbatim>\<open>playlist.reduce((acc, t) => acc + t.duration, 0)\<close> and
  \<^verbatim>\<open>playlistDuration * encodingSettings.loopCount\<close>, every sum and product rounded to
  a double.
\<close>

definition playlistDuration :: "audioTrack list \<Rightarrow> rat" where
  "playlistDuration playlist = foldl (\<lambda>acc t. dbl (acc + duration t)) 0 playlist"

definition totalDuration :: "audioTrack list \<Rightarrow> encodingSettings \<Rightarrow> rat" where
  "totalDuration playlist es = dbl (playlistDuration playlist * of_nat (loopCount es))"

definition sampleRate :: nat where
  "sampleRate = 48000"

text \<open>\<^verbatim>\<open>Math.ceil(totalDuration * sampleRate)\<close>.\<close>

definition totalDurationSamples :: "audioTrack list \<Rightarrow> encodingSettings \<Rightarrow> int" where
  "totalDurationSamples playlist es =
     \<lceil>dbl (totalDuration playlist es * of_nat sampleRate)\<rceil>"

subsection \<open>The browser, and the calls the render makes\<close>

text \<open>
  What the browser answers is an input. The decoder returns a buffer of samples or
  throws with a message; the decoded buffer is taken at the 48 kHz of the offline
  context (resampling is not modelled), one rational per sample frame, the channels
  being treated alike. \<^verbatim>\<open>VideoEncoder.isConfigSupported\<close> answers, or throws. The
  constructor of the offline context and the constructor of the muxer are modelled
  below; the encoders and \<^verbatim>\<open>createImageBitmap\<close> are taken to return normally.
\<close>

datatype probe = Supported | Unsupported | ProbeThrows string

record browser =
  hasShowSaveFilePicker :: bool
  showSaveFilePicker :: bool
  decodeAudioData :: "nat list \<Rightarrow> string + rat list"
  isConfigSupported :: "string \<Rightarrow> probe"
  canvasAvailable :: "nat \<Rightarrow> bool"

datatype status = Preparing | FastRendering | EncodingAudio | Packaging | FinishingSave

datatype node = Destination | MasterGain | Analyser

datatype event =
    AlertUnsupportedBrowser
  | ShowSaveFilePicker
  | SetShowRenderModal bool
  | SetIsRendering bool
  | SetIsPlaying bool
  | SetRenderProgress rat
  | SetRenderStatusText status
  | NewAudioContext
  | DecodeAudioData "nat list"
  | AudioContextClose
  | NewOfflineAudioContext nat int nat
  | SourceStart node nat rat
  | CreateAnalyser
  | CreateGain
  | Connect node node
  | IsConfigSupported string
  | ConsoleWarn
  | ConsoleError
  | ConsoleLog
  | SetUsedCodec string
  | CreateWritable
  | NewMuxer string
  | VideoConfigure string
  | AudioConfigure nat
  | Suspend rat
  | StartRendering
  | GetByteFrequencyData
  | DrawOfflineFrame rat
  | VideoEncode rat rat bool
  | Resume
  | AudioEncode rat nat nat
  | VideoFlush
  | AudioFlush
  | MuxerFinalize
  | AlertDone
  | AlertError string
  | AlertCloseFailed
  | AwaitWriteQueue
  | SinkClose
  | SinkAbort
  | RecorderStop
  | AudioPause
  | SetGain rat
  | Confirm
  | LocationReload

datatype outcome = NotStarted | PickerCancelled | Failed string | Completed

record studio =
  playlist :: "audioTrack list"
  encoding :: encodingSettings
  selectedPreset :: renderConfig

subsection \<open>Offline render, step 1: decoding the tracks\<close>

text \<open>
  \<^verbatim>\<open>for (const track of playlist) { ... decodeAudioData ... trackBuffers.push }\<close>:
  the first track that fails to decode throws out of the loop and out of the
  \<^verbatim>\<open>try\<close> block.
\<close>

fun decodeTracks :: "browser \<Rightarrow> audioTrack list \<Rightarrow> event list \<times> (string + rat list list)" where
  "decodeTracks env [] = ([], Inr [])"
| "decodeTracks env (track # rest) =
     (case decodeAudioData env (track_file track) of
        Inl message \<Rightarrow> ([DecodeAudioData (track_file track)], Inl message)
      | Inr audioBuffer \<Rightarrow>
          (case decodeTracks env rest of
             (evs, Inl message) \<Rightarrow> (DecodeAudioData (track_file track) # evs, Inl message)
           | (evs, Inr trackBuffers) \<Rightarrow>
               (DecodeAudioData (track_file track) # evs, Inr (audioBuffer # trackBuffers))))"

subsection \<open>Offline render, step 2: the offline audio graph\<close>

text \<open>
  \<^verbatim>\<open>new OfflineAudioContext(2, length, sampleRate)\<close> throws when the length is not at
  least one sample frame (an empty playlist, a loop count of 0). The wording of the
  message is the browser's; the model fixes the name of the exception.
\<close>

definition newOfflineAudioContext :: "int \<Rightarrow> string + unit" where
  "newOfflineAudioContext len = (if len < 1 then Inl ''NotSupportedError'' else Inr ())"

definition bufferDuration :: "rat list \<Rightarrow> rat" where
  "bufferDuration buffer = of_nat (length buffer) / of_nat sampleRate"

text \<open>
  The inner loop \<^verbatim>\<open>for (const buffer of trackBuffers)\<close>: each buffer gets a source
  started at \<^verbatim>\<open>startTime\<close>, which then advances by the buffer's duration. The result
  is the list of (buffer, start time) and the final \<^verbatim>\<open>startTime\<close>.
\<close>

fun scheduleTracks :: "rat \<Rightarrow> rat list list \<Rightarrow> (rat list \<times> rat) list \<times> rat" where
  "scheduleTracks startTime [] = ([], startTime)"
| "scheduleTracks startTime (buffer # rest) =
     (case scheduleTracks (startTime + bufferDuration buffer) rest of
        (sources, endTime) \<Rightarrow> ((buffer, startTime) # sources, endTime))"

text \<open>The outer loop \<^verbatim>\<open>for (let loop = 0; loop < loopCount; loop++)\<close>.\<close>

fun scheduleLoops :: "nat \<Rightarrow> rat \<Rightarrow> rat list list \<Rightarrow> (rat list \<times> rat) list" where
  "scheduleLoops 0 startTime trackBuffers = []"
| "scheduleLoops (Suc n) startTime trackBuffers =
     (case scheduleTracks startTime trackBuffers of
        (sources, endTime) \<Rightarrow> sources @ scheduleLoops n endTime trackBuffers)"

text \<open>
  The code runs the double loop twice, each time from \<^verbatim>\<open>startTime = 0\<close>: the first
  time every source is connected to \<^verbatim>\<open>offlineCtx.destination\<close>, the second time to
  \<^verbatim>\<open>masterGain\<close>, which is itself connected to the destination and to the analyser.
\<close>

definition directSources :: "rat list list \<Rightarrow> studio \<Rightarrow> (rat list \<times> rat) list" where
  "directSources trackBuffers st = scheduleLoops (loopCount (encoding st)) 0 trackBuffers"

definition masterGainSources :: "rat list list \<Rightarrow> studio \<Rightarrow> (rat list \<times> rat) list" where
  "masterGainSources trackBuffers st = scheduleLoops (loopCount (encoding st)) 0 trackBuffers"

text \<open>The events of building the graph, once the offline context has been created.\<close>

definition setupGraph :: "rat list list \<Rightarrow> studio \<Rightarrow> event list" where
  "setupGraph trackBuffers st =
     [NewOfflineAudioContext 2 (totalDurationSamples (playlist st) (encoding st)) sampleRate]
     @ map (\<lambda>(buffer, startTime). SourceStart Destination (length buffer) startTime)
         (directSources trackBuffers st)
     @ [CreateAnalyser, CreateGain, Connect MasterGain Destination, Connect MasterGain Analyser]
     @ map (\<lambda>(buffer, startTime). SourceStart MasterGain (length buffer) startTime)
         (masterGainSources trackBuffers st)"

text \<open>
  What the offline context renders. A source started at \<^verbatim>\<open>when\<close> plays its buffer
  from the first sample frame at or after \<^verbatim>\<open>when\<close> and is silent elsewhere; a node
  sums its inputs; the gain of \<^verbatim>\<open>masterGain\<close> is left at its default 1. The rendered
  buffer has the length the context was created with.
\<close>

definition startFrame :: "rat \<Rightarrow> nat" where
  "startFrame when = nat \<lceil>when * of_nat sampleRate\<rceil>"

definition playSample :: "rat list \<times> rat \<Rightarrow> nat \<Rightarrow> rat" where
  "playSample src n =
     (case src of (buffer, when) \<Rightarrow>
        if startFrame when \<le> n \<and> n - startFrame when < length buffer
        then buffer ! (n - startFrame when) else 0)"

definition mixAt :: "(rat list \<times> rat) list \<Rightarrow> nat \<Rightarrow> rat" where
  "mixAt sources n = sum_list (map (\<lambda>src. playSample src n) sources)"

definition renderedBuffer :: "rat list list \<Rightarrow> studio \<Rightarrow> rat list" where
  "renderedBuffer trackBuffers st =
     map (\<lambda>n. mixAt (directSources trackBuffers st) n
               + 1 * mixAt (masterGainSources trackBuffers st) n)
       [0..<nat (totalDurationSamples (playlist st) (encoding st))]"

subsection \<open>Offline render, step 3: the video codec\<close>

text \<open>
  HEVC is probed first. When the probe answers no or throws, the \<^verbatim>\<open>catch\<close> block
  switches to AVC High and probes it outside any inner \<^verbatim>\<open>try\<close>: an exception of that
  probe leaves the render. When AVC High is answered no, the codec string becomes AVC
  Baseline, which is not probed. The result is \<^verbatim>\<open>chosenCodec\<close> and
  \<^verbatim>\<open>videoConfig.codec\<close>.
\<close>

definition negotiateCodec :: "browser \<Rightarrow> event list \<times> (string + string \<times> string)" where
  "negotiateCodec env =
     (case isConfigSupported env ''hvc1.1.6.L120.B0'' of
        Supported \<Rightarrow>
          ([IsConfigSupported ''hvc1.1.6.L120.B0''], Inr (''hvc1'', ''hvc1.1.6.L120.B0''))
      | _ \<Rightarrow>
          (case isConfigSupported env ''avc1.640028'' of
             Supported \<Rightarrow>
               ([IsConfigSupported ''hvc1.1.6.L120.B0'', ConsoleWarn,
                 IsConfigSupported ''avc1.640028''],
                Inr (''avc1'', ''avc1.640028''))
           | Unsupported \<Rightarrow>
               ([IsConfigSupported ''hvc1.1.6.L120.B0'', ConsoleWarn,
                 IsConfigSupported ''avc1.640028'', ConsoleWarn],
                Inr (''avc1'', ''avc1.420028''))
           | ProbeThrows message \<Rightarrow>
               ([IsConfigSupported ''hvc1.1.6.L120.B0'', ConsoleWarn,
                 IsConfigSupported ''avc1.640028''],
                Inl message)))"

subsection \<open>Offline render, steps 4 and 5: muxer and encoders\<close>

text \<open>
  The constructor of the muxer of the \<^verbatim>\<open>mp4-muxer\<close> library validates its options: the
  video codec has to be one of \<^verbatim>\<open>avc\<close>, \<^verbatim>\<open>hevc\<close>, \<^verbatim>\<open>vp9\<close>, \<^verbatim>\<open>av1\<close> and the audio
  codec one of \<^verbatim>\<open>aac\<close>, \<^verbatim>\<open>opus\<close>; otherwise it throws. The wording of the message is
  the library's; the model fixes one.
\<close>

definition muxerVideoCodecs :: "string list" where
  "muxerVideoCodecs = [''avc'', ''hevc'', ''vp9'', ''av1'']"

definition muxerAudioCodecs :: "string list" where
  "muxerAudioCodecs = [''aac'', ''opus'']"

definition newMuxer :: "string \<Rightarrow> string \<Rightarrow> string + unit" where
  "newMuxer videoCodec audioCodec =
     (if videoCodec \<notin> set muxerVideoCodecs
      then Inl (''Unsupported video codec: '' @ videoCodec)
      else if audioCodec \<notin> set muxerAudioCodecs
      then Inl (''Unsupported audio codec: '' @ audioCodec)
      else Inr ())"

text \<open>
  The used codec is shown, the writable stream of the file handle is created, and the
  muxer is constructed with the video codec \<^verbatim>\<open>hvc1\<close> or \<^verbatim>\<open>avc1\<close> and the audio codec
  \<^verbatim>\<open>mp4a.40.2\<close>. When the constructor throws, the exception leaves the \<^verbatim>\<open>try\<close> block;
  otherwise both encoders are created and configured.
\<close>

definition setupEncoders ::
  "string \<Rightarrow> string \<Rightarrow> studio \<Rightarrow> event list \<times> (string + unit)" where
  "setupEncoders chosenCodec codec st =
     (case newMuxer (if chosenCodec = ''hvc1'' then ''hvc1'' else ''avc1'') ''mp4a.40.2'' of
        Inl message \<Rightarrow>
          ([SetUsedCodec (if chosenCodec = ''hvc1'' then ''HEVC (H.265)'' else ''AVC (H.264)''),
            CreateWritable,
            NewMuxer (if chosenCodec = ''hvc1'' then ''hvc1'' else ''avc1'')],
           Inl message)
      | Inr _ \<Rightarrow>
          ([SetUsedCodec (if chosenCodec = ''hvc1'' then ''HEVC (H.265)'' else ''AVC (H.264)''),
            CreateWritable,
            NewMuxer (if chosenCodec = ''hvc1'' then ''hvc1'' else ''avc1''),
            VideoConfigure codec,
            AudioConfigure (audioBitrate (encoding st))],
           Inr ()))"

subsection \<open>Offline render, step 6: the render loop\<close>

text \<open>
  \<^verbatim>\<open>frameDuration = 1 / fps\<close>. At \<open>fps = 0\<close> JavaScript gives \<^verbatim>\<open>Infinity\<close> where HOL
  gives 0; the value is read only inside the loop, which has no iteration then,
  \<open>totalFrames\<close> being \<^verbatim>\<open>Math.ceil(totalDuration * 0)\<close>, that is 0.
\<close>

definition frameDuration :: "studio \<Rightarrow> rat" where
  "frameDuration st = dbl (1 / of_nat (fps (selectedPreset st)))"

definition totalFrames :: "studio \<Rightarrow> int" where
  "totalFrames st =
     \<lceil>dbl (totalDuration (playlist st) (encoding st) * of_nat (fps (selectedPreset st)))\<rceil>"

text \<open>
  \<^verbatim>\<open>i % (fps * 2) === 0\<close>: with a zero divisor JavaScript's remainder is \<^verbatim>\<open>NaN\<close>
  and the comparison is false.
\<close>

definition keyFrame :: "nat \<Rightarrow> nat \<Rightarrow> bool" where
  "keyFrame i fps' = (fps' * 2 \<noteq> 0 \<and> i mod (fps' * 2) = 0)"

text \<open>
  The callback of \<^verbatim>\<open>offlineCtx.suspend(time).then(...)\<close> for frame \<open>i\<close>. The frame
  is drawn and encoded only when the canvas is there; progress and \<^verbatim>\<open>resume\<close> come
  last, so the context moves on only after the frame was submitted.
\<close>

definition frameCallback :: "browser \<Rightarrow> studio \<Rightarrow> rat \<times> nat \<Rightarrow> event list" where
  "frameCallback env st job =
     (case job of (time, i) \<Rightarrow>
        [GetByteFrequencyData]
        @ (if canvasAvailable env i
           then [DrawOfflineFrame (dbl (time * 1000)),
                 VideoEncode (dbl (time * 1000000)) (dbl (frameDuration st * 1000000))
                   (keyFrame i (fps (selectedPreset st)))]
           else [])
        @ [SetRenderProgress (dbl (dbl (of_nat i / of_int (totalFrames st)) * 90)), Resume])"

text \<open>
  The \<^verbatim>\<open>for\<close> loop only registers the suspensions, at \<^verbatim>\<open>time = i * frameDuration\<close>.
\<close>

definition suspensions :: "studio \<Rightarrow> (rat \<times> nat) list" where
  "suspensions st =
     map (\<lambda>i. (dbl (of_nat i * frameDuration st), i)) [0..<nat (totalFrames st)]"

text \<open>
  What the offline context does with a registered suspension. The time is rounded up
  to the next boundary of a render quantum of 128 sample frames. The promise is
  rejected, and its callback never runs (the code attaches no handler for the
  rejection), when that frame is negative, when it is at or past the length of the
  context, or when an earlier suspension was registered for the same frame.
\<close>

definition quantumFrame :: "rat \<Rightarrow> int" where
  "quantumFrame when = 128 * \<lceil>when * of_nat sampleRate / 128\<rceil>"

fun acceptSuspensions :: "int \<Rightarrow> int list \<Rightarrow> (rat \<times> nat) list \<Rightarrow> (rat \<times> nat) list" where
  "acceptSuspensions len taken [] = []"
| "acceptSuspensions len taken (job # jobs) =
     (if quantumFrame (fst job) < 0 \<or> len \<le> quantumFrame (fst job)
         \<or> quantumFrame (fst job) \<in> set taken
      then acceptSuspensions len taken jobs
      else job # acceptSuspensions len (quantumFrame (fst job) # taken) jobs)"

text \<open>
  \<^verbatim>\<open>startRendering\<close> runs the context, which stops at the frame of each accepted
  suspension, in the order of the frames, and runs that callback.
\<close>

definition renderLoop :: "browser \<Rightarrow> studio \<Rightarrow> event list" where
  "renderLoop env st =
     [SetRenderStatusText FastRendering]
     @ map (\<lambda>job. Suspend (fst job)) (suspensions st)
     @ [StartRendering]
     @ concat (map (frameCallback env st)
         (sort_key (\<lambda>job. quantumFrame (fst job))
            (acceptSuspensions (totalDurationSamples (playlist st) (encoding st)) []
               (suspensions st))))"

subsection \<open>Offline render: audio encoding and packaging\<close>

text \<open>
  \<^verbatim>\<open>for (let offset = 0; offset < totalSamples; offset += chunkSamples)\<close>, with one
  second of samples per chunk. An \<^term>\<open>AudioEncode\<close> event carries the timestamp in
  microseconds, the number of frames and the offset of the segment of the rendered
  buffer it encodes.
\<close>

function audioChunks :: "nat \<Rightarrow> nat \<Rightarrow> event list" where
  "audioChunks offset totalSamples =
     (if offset < totalSamples
      then AudioEncode (dbl (dbl (of_nat offset / of_nat sampleRate) * 1000000))
             (min (sampleRate * 1) (totalSamples - offset)) offset
           # audioChunks (offset + sampleRate * 1) totalSamples
      else [])"
  by pat_completeness auto
termination
  by (relation "measure (\<lambda>(offset, totalSamples). totalSamples - offset)")
     (auto simp: sampleRate_def)

declare audioChunks.simps [simp del]

definition encodeAudio :: "studio \<Rightarrow> event list" where
  "encodeAudio st =
     SetRenderStatusText EncodingAudio
     # audioChunks 0 (nat (totalDurationSamples (playlist st) (encoding st)))"

definition finalize :: "event list" where
  "finalize =
     [SetRenderStatusText Packaging, VideoFlush, AudioFlush, MuxerFinalize,
      SetRenderProgress 100, AlertDone]"

subsection \<open>Offline render: \<^verbatim>\<open>startOfflineRendering\<close>\<close>

text \<open>The \<^verbatim>\<open>try\<close> block: its events, and the exception that left it, if any.\<close>

definition renderBody :: "browser \<Rightarrow> studio \<Rightarrow> event list \<times> (string + unit)" where
  "renderBody env st =
     (case decodeTracks env (playlist st) of
        (decodeEvents, Inl message) \<Rightarrow> (NewAudioContext # decodeEvents, Inl message)
      | (decodeEvents, Inr trackBuffers) \<Rightarrow>
          (case newOfflineAudioContext (totalDurationSamples (playlist st) (encoding st)) of
             Inl message \<Rightarrow>
               (NewAudioContext # decodeEvents
                  @ [AudioContextClose,
                     NewOfflineAudioContext 2
                       (totalDurationSamples (playlist st) (encoding st)) sampleRate],
                Inl message)
           | Inr _ \<Rightarrow>
          (case negotiateCodec env of
             (probeEvents, Inl message) \<Rightarrow>
               (NewAudioContext # decodeEvents @ [AudioContextClose]
                  @ setupGraph trackBuffers st @ probeEvents,
                Inl message)
           | (probeEvents, Inr (chosenCodec, codec)) \<Rightarrow>
               (case setupEncoders chosenCodec codec st of
                  (encoderEvents, Inl message) \<Rightarrow>
                    (NewAudioContext # decodeEvents @ [AudioContextClose]
                       @ setupGraph trackBuffers st @ probeEvents
                       @ encoderEvents,
                     Inl message)
                | (encoderEvents, Inr _) \<Rightarrow>
                    (NewAudioContext # decodeEvents @ [AudioContextClose]
                       @ setupGraph trackBuffers st @ probeEvents
                       @ encoderEvents
                       @ renderLoop env st
                       @ encodeAudio st
                       @ finalize,
                     Inr ())))))"

text \<open>
  The whole function: the capability check, the file picker (the first thing awaited),
  the \<^verbatim>\<open>try\<close> block with its \<^verbatim>\<open>catch\<close> (log and alert) and \<^verbatim>\<open>finally\<close>.
\<close>

definition startOfflineRendering :: "browser \<Rightarrow> studio \<Rightarrow> event list \<times> outcome" where
  "startOfflineRendering env st =
     (if \<not> hasShowSaveFilePicker env then ([AlertUnsupportedBrowser], NotStarted)
      else if \<not> showSaveFilePicker env then ([ShowSaveFilePicker], PickerCancelled)
      else
        (case renderBody env st of
           (bodyEvents, Inl message) \<Rightarrow>
             ([ShowSaveFilePicker, SetShowRenderModal False, SetIsRendering True,
               SetRenderProgress 0, SetRenderStatusText Preparing]
              @ bodyEvents
              @ [ConsoleError, AlertError message]
              @ [SetIsRendering False],
              Failed message)
         | (bodyEvents, Inr _) \<Rightarrow>
             ([ShowSaveFilePicker, SetShowRenderModal False, SetIsRendering True,
               SetRenderProgress 0, SetRenderStatusText Preparing]
              @ bodyEvents
              @ [SetIsRendering False],
              Completed)))"

text \<open>Cancelling the offline render: after the user confirms, the page is reloaded.\<close>

definition cancelRendering_offline :: "bool \<Rightarrow> event list" where
  "cancelRendering_offline confirmed = (if confirmed then [Confirm, LocationReload] else [Confirm])"

subsection \<open>Reading a trace\<close>

text \<open>The frames submitted to the video encoder, in order: timestamp and keyframe flag.\<close>

fun videoSubmissions :: "event list \<Rightarrow> (rat \<times> bool) list" where
  "videoSubmissions [] = []"
| "videoSubmissions (VideoEncode ts d k # evs) = (ts, k) # videoSubmissions evs"
| "videoSubmissions (_ # evs) = videoSubmissions evs"

fun audioSubmissions :: "event list \<Rightarrow> (rat \<times> nat) list" where
  "audioSubmissions [] = []"
| "audioSubmissions (AudioEncode ts n off # evs) = (ts, n) # audioSubmissions evs"
| "audioSubmissions (_ # evs) = audioSubmissions evs"


definition isEncode :: "event \<Rightarrow> bool" where
  "isEncode e =
     (case e of VideoEncode _ _ _ \<Rightarrow> True | AudioEncode _ _ _ \<Rightarrow> True | _ \<Rightarrow> False)"

text \<open>The events that build the offline audio graph (the audio timeline).\<close>

definition isGraphEvent :: "event \<Rightarrow> bool" where
  "isGraphEvent e =
     (case e of
        NewOfflineAudioContext _ _ _ \<Rightarrow> True
      | SourceStart _ _ _ \<Rightarrow> True
      | CreateAnalyser \<Rightarrow> True
      | CreateGain \<Rightarrow> True
      | Connect _ _ \<Rightarrow> True
      | _ \<Rightarrow> False)"

subsection \<open>Recorder revision: stopping and cancelling\<close>

text \<open>
  The refs and state of \<^verbatim>\<open>src/components/StudioPhase.tsx\<close> that the stop handler
  and \<^verbatim>\<open>cancelRendering\<close> touch. \<^verbatim>\<open>mediaRecorderRef.current\<close> is absent, or a recorder
  that is active (state other than \<^verbatim>\<open>inactive\<close>) or not, with or without its
  \<^verbatim>\<open>onstop\<close> handler; \<^verbatim>\<open>writableStreamRef.current\<close> is absent or a stream that is
  writable, closed or aborted; \<^verbatim>\<open>gainNodeRef.current\<close> is absent or a gain node with
  its gain value.
\<close>

datatype sink = Writable | Closed | Aborted

record recorderStudio =
  recorderActive :: "bool option"
  onstopAttached :: bool
  writableStream :: "sink option"
  speakerGain :: "rat option"
  isRendering :: bool
  isPlaying :: bool
  renderProgress :: rat

text \<open>
  The \<^verbatim>\<open>onstop\<close> handler installed by \<^verbatim>\<open>startRendering\<close>. Whether the browser's
  \<^verbatim>\<open>close()\<close> succeeds is an input.
\<close>

definition onstop :: "bool \<Rightarrow> recorderStudio \<Rightarrow> event list \<times> recorderStudio" where
  "onstop closeSucceeds s =
     ([SetRenderStatusText FinishingSave, SetRenderProgress 100]
      @ (case writableStream s of
           None \<Rightarrow> []
         | Some k \<Rightarrow>
             if closeSucceeds then [AwaitWriteQueue, SinkClose, ConsoleLog, AlertDone]
             else [AwaitWriteQueue, SinkClose, ConsoleError, AlertCloseFailed])
      @ [SetIsRendering False, SetIsPlaying False, SetRenderProgress 0]
      @ (case speakerGain s of None \<Rightarrow> [] | Some g \<Rightarrow> [SetGain 1]),
      s\<lparr>writableStream :=
           (case writableStream s of
              None \<Rightarrow> None
            | Some k \<Rightarrow> if closeSucceeds then Some Closed else Some k),
        isRendering := False, isPlaying := False, renderProgress := 0,
        speakerGain := (case speakerGain s of None \<Rightarrow> None | Some g \<Rightarrow> Some 1)\<rparr>)"

text \<open>The recorder's \<^verbatim>\<open>stop\<close> event runs the handler that is attached, if any.\<close>

definition fireStop :: "bool \<Rightarrow> recorderStudio \<Rightarrow> event list \<times> recorderStudio" where
  "fireStop closeSucceeds s = (if onstopAttached s then onstop closeSucceeds s else ([], s))"

definition stopRenderingAndDownload :: "recorderStudio \<Rightarrow> event list \<times> recorderStudio" where
  "stopRenderingAndDownload s =
     (if recorderActive s = Some True
      then ([RecorderStop, AudioPause], s\<lparr>recorderActive := Some False\<rparr>)
      else ([], s))"

text \<open>
  \<^verbatim>\<open>cancelRendering\<close> of the recorder revision. \<^verbatim>\<open>abort()\<close> turns a writable stream
  into an aborted one; on a stream that is no longer writable it rejects, which the
  empty \<^verbatim>\<open>catch\<close> swallows.
\<close>

definition abortSink :: "sink \<Rightarrow> sink" where
  "abortSink k = (case k of Writable \<Rightarrow> Aborted | Closed \<Rightarrow> Closed | Aborted \<Rightarrow> Aborted)"

definition cancelRendering :: "recorderStudio \<Rightarrow> event list \<times> recorderStudio" where
  "cancelRendering s =
     ((if recorderActive s = Some True then [RecorderStop] else [])
      @ (case writableStream s of None \<Rightarrow> [] | Some k \<Rightarrow> [SinkAbort])
      @ [SetIsRendering False, SetIsPlaying False, AudioPause]
      @ (case speakerGain s of None \<Rightarrow> [] | Some g \<Rightarrow> [SetGain 1]),
      s\<lparr>recorderActive :=
           (if recorderActive s = Some True then Some False else recorderActive s),
        onstopAttached :=
           (if recorderActive s = Some True then False else onstopAttached s),
        writableStream :=
           (case writableStream s of None \<Rightarrow> None | Some k \<Rightarrow> Some (abortSink k)),
        isRendering := False, isPlaying := False,
        speakerGain := (case speakerGain s of None \<Rightarrow> None | Some g \<Rightarrow> Some 1)\<rparr>)"

subsection \<open>Recorder revision: the sequential write queue\<close>

text \<open>
  \<^verbatim>\<open>writeQueueRef.current\<close> holds a promise, at first \<^verbatim>\<open>Promise.resolve()\<close>. On every
  \<^verbatim>\<open>dataavailable\<close> event with data, the handler replaces it by
  \<^verbatim>\<open>writeQueueRef.current.then(async () => { await write(blob) }).catch(...)\<close>: a new
  promise chained on the one the ref held. Promises are numbered in the order of their
  creation, promise 0 being the resolved one. The callback of a chained promise awaits
  the write inside a \<^verbatim>\<open>try\<close>, so the promise settles when the write has settled,
  whatever its result.
\<close>

datatype phase = Waiting | Writing | Settled

datatype promise = Resolved | Chained nat phase

datatype sinkEvent = WriteBegin nat | WriteEnd nat

record queueState =
  promises :: "promise list"
  writeQueueRef :: nat
  sinkLog :: "sinkEvent list"

definition initialQueue :: queueState where
  "initialQueue = \<lparr>promises = [Resolved], writeQueueRef = 0, sinkLog = []\<rparr>"

definition isSettled :: "promise \<Rightarrow> bool" where
  "isSettled p = (case p of Resolved \<Rightarrow> True | Chained q ph \<Rightarrow> ph = Settled)"

text \<open>
  What can happen, in any order and any number of times between two ticks:
  \<^item> \<open>DataAvailable blobSize\<close>: the recorder delivers a blob; the handler chains a write
    when the blob is not empty;
  \<^item> \<open>RunCallback p\<close>: the job queue runs the \<^verbatim>\<open>then\<close> callback of promise \<open>p\<close>, which
    starts the write on the stream. A \<^verbatim>\<open>then\<close> callback is run only once the promise
    it was chained on has settled;
  \<^item> \<open>WriteSettles p\<close>: the stream finishes (or fails) the write that promise \<open>p\<close> is
    awaiting.
  An action that cannot happen in a state gives \<^term>\<open>None\<close>. The stream ref
  \<^verbatim>\<open>writableStreamRef.current\<close> is set before the recorder starts and nothing resets
  it, so the two tests of it in the handler succeed throughout a render.
\<close>

datatype action = DataAvailable nat | RunCallback nat | WriteSettles nat

fun fire :: "action \<Rightarrow> queueState \<Rightarrow> queueState option" where
  "fire (DataAvailable blobSize) s =
     (if blobSize > 0
      then Some (s\<lparr>promises := promises s @ [Chained (writeQueueRef s) Waiting],
                   writeQueueRef := length (promises s)\<rparr>)
      else Some s)"
| "fire (RunCallback p) s =
     (if p < length (promises s)
      then (case promises s ! p of
              Chained q Waiting \<Rightarrow>
                if q < length (promises s) \<and> isSettled (promises s ! q)
                then Some (s\<lparr>promises := (promises s)[p := Chained q Writing],
                             sinkLog := sinkLog s @ [WriteBegin p]\<rparr>)
                else None
            | _ \<Rightarrow> None)
      else None)"
| "fire (WriteSettles p) s =
     (if p < length (promises s)
      then (case promises s ! p of
              Chained q Writing \<Rightarrow>
                Some (s\<lparr>promises := (promises s)[p := Chained q Settled],
                        sinkLog := sinkLog s @ [WriteEnd p]\<rparr>)
            | _ \<Rightarrow> None)
      else None)"

fun run :: "action list \<Rightarrow> queueState \<Rightarrow> queueState option" where
  "run [] s = Some s"
| "run (a # as) s = (case fire a s of None \<Rightarrow> None | Some s' \<Rightarrow> run as s')"

text \<open>\<open>a\<close> occurs in a list of events before the first occurrence of \<open>b\<close>, if any.\<close>

definition occursBefore :: "'a \<Rightarrow> 'a \<Rightarrow> 'a list \<Rightarrow> bool" where
  "occursBefore a b evs = (a \<in> set (takeWhile (\<lambda>e. e \<noteq> b) evs))"

text \<open>
  The invariant of the queue used in the proofs: promise 0 is the resolved one, the ref
  holds the newest promise, every later promise is chained on its predecessor, a promise
  whose callback has started has only settled promises before it, and the log agrees
  with the phases.
\<close>

definition queueInv :: "queueState \<Rightarrow> bool" where
  "queueInv s \<longleftrightarrow>
     promises s \<noteq> [] \<and> promises s ! 0 = Resolved
   \<and> writeQueueRef s = length (promises s) - 1
   \<and> (\<forall>p. 0 < p \<and> p < length (promises s) \<longrightarrow> (\<exists>ph. promises s ! p = Chained (p - 1) ph))
   \<and> (\<forall>a p. 0 < a \<and> a < p \<and> p < length (promises s)
          \<and> promises s ! p \<noteq> Chained (p - 1) Waiting
          \<longrightarrow> promises s ! a = Chained (a - 1) Settled)
   \<and> (\<forall>p. WriteBegin p \<in> set (sinkLog s)
          \<longrightarrow> 0 < p \<and> p < length (promises s) \<and> promises s ! p \<noteq> Chained (p - 1) Waiting)
   \<and> (\<forall>p. 0 < p \<and> p < length (promises s) \<and> promises s ! p = Chained (p - 1) Settled
          \<longrightarrow> WriteEnd p \<in> set (sinkLog s))
   \<and> (\<forall>a b. 0 < a \<and> a < b \<and> WriteBegin b \<in> set (sinkLog s)
          \<longrightarrow> occursBefore (WriteEnd a) (WriteBegin b) (sinkLog s))"

subsection \<open>Concrete inputs\<close>

text \<open>
  A browser in which everything works; its toy decoder takes the bytes of the file as
  the samples.
\<close>

definition workingBrowser :: browser where
  "workingBrowser =
     \<lparr>hasShowSaveFilePicker = True, showSaveFilePicker = True,
      decodeAudioData = (\<lambda>bytes. Inr (map of_nat bytes)),
      isConfigSupported = (\<lambda>codec. Supported),
      canvasAvailable = (\<lambda>i. True)\<rparr>"


text \<open>The same browser, failing to decode the file \<open>[2]\<close>.\<close>

definition badSecondTrackBrowser :: browser where
  "badSecondTrackBrowser =
     workingBrowser\<lparr>decodeAudioData :=
       (\<lambda>bytes. if bytes = [2] then Inl ''Unable to decode audio data''
                  else Inr (map of_nat bytes))\<rparr>"

text \<open>The scenario of the specification: tracks of 3 s and 2 s, two loops, 30 fps.\<close>

definition scenarioStudio :: studio where
  "scenarioStudio =
     \<lparr>playlist = [\<lparr>track_id = ''a'', duration = 3, track_file = [1]\<rparr>,
                  \<lparr>track_id = ''b'', duration = 2, track_file = [2]\<rparr>],
      encoding = \<lparr>loopCount = 2, audioBitrate = 128000\<rparr>,
      selectedPreset = \<lparr>preset_id = ''balanced'', fps = 30, bitrate = 5000000\<rparr>\<rparr>"

text \<open>One track of one sample frame (1/48000 s), one loop, 30 fps.\<close>

definition tinyStudio :: studio where
  "tinyStudio =
     \<lparr>playlist = [\<lparr>track_id = ''a'', duration = 1 / 48000, track_file = [1]\<rparr>],
      encoding = \<lparr>loopCount = 1, audioBitrate = 128000\<rparr>,
      selectedPreset = \<lparr>preset_id = ''balanced'', fps = 30, bitrate = 5000000\<rparr>\<rparr>"

text \<open>
  One track of 69/2048 s (1618 sample frames when rounded up), one loop, 30 fps: two
  video frames, at the sample frames 0 and 1600.
\<close>

definition shortStudio :: studio where
  "shortStudio =
     \<lparr>playlist = [\<lparr>track_id = ''a'', duration = 69 / 2048, track_file = [1]\<rparr>],
      encoding = \<lparr>loopCount = 1, audioBitrate = 128000\<rparr>,
      selectedPreset = \<lparr>preset_id = ''balanced'', fps = 30, bitrate = 5000000\<rparr>\<rparr>"



text \<open>The recorder revision in the middle of a render, as \<^verbatim>\<open>startRendering\<close> leaves it.\<close>

definition recordingStudio :: recorderStudio where
  "recordingStudio =
     \<lparr>recorderActive = Some True, onstopAttached = True, writableStream = Some Writable,
      speakerGain = Some 0, isRendering = True, isPlaying = True, renderProgress = 0\<rparr>"

section \<open>Properties\<close>

subsection \<open>Helper lemmas\<close>

lemma mset_swap_update:
  assumes "i < length xs" and "j < length xs"
  shows "mset (xs[i := xs ! j, j := xs ! i]) = mset xs"
  using assms by (simp add: mset_swap)

subsection \<open>Rounding to doubles\<close>

lemma roundHalfEven_between:
  assumes "of_int A \<le> m" and "m \<le> of_int B"
  shows "A \<le> roundHalfEven m \<and> roundHalfEven m \<le> B"
proof -
  have lo: "A \<le> \<lfloor>m\<rfloor>" using assms(1) by (simp add: le_floor_iff)
  have fl: "\<lfloor>m\<rfloor> \<le> B" using assms(2) by (simp add: floor_le_iff)
  have up: "\<lfloor>m\<rfloor> + 1 \<le> B" if "of_int \<lfloor>m\<rfloor> < m"
  proof -
    have "of_int \<lfloor>m\<rfloor> < (of_int B :: rat)" using that assms(2) by linarith
    then have "\<lfloor>m\<rfloor> < B" by (simp only: of_int_less_iff)
    then show ?thesis by simp
  qed
  show ?thesis
    unfolding roundHalfEven_def using lo fl up by auto
qed

lemma roundHalfEven_fraction:
  assumes "0 < q"
  shows "roundHalfEven (of_int p / of_int q) =
           (if 2 * (p mod q) < q then p div q
            else if q < 2 * (p mod q) then p div q + 1
            else if even (p div q) then p div q else p div q + 1)"
proof -
  have f: "\<lfloor>rat_of_int p / of_int q\<rfloor> = p div q"
    by (simp add: floor_divide_of_int_eq)
  have qpos: "(0::rat) < of_int q" using assms by simp
  have "rat_of_int p = of_int (p div q * q + p mod q)" by simp
  then have "rat_of_int p = of_int (p div q) * of_int q + of_int (p mod q)"
    by (simp only: of_int_add of_int_mult)
  then have "rat_of_int p / of_int q = (of_int (p div q) * of_int q + of_int (p mod q)) / of_int q"
    by simp
  then have "rat_of_int p / of_int q = of_int (p div q) + of_int (p mod q) / of_int q"
    using qpos by (simp add: add_divide_distrib)
  then have d: "rat_of_int p / of_int q - of_int (p div q) = of_int (p mod q) / of_int q"
    by simp
  have lt: "(rat_of_int (p mod q) / of_int q < 1 / 2) = (2 * (p mod q) < q)"
  proof -
    have "(rat_of_int (p mod q) / of_int q < 1 / 2) = (rat_of_int (2 * (p mod q)) < of_int q)"
      using qpos by (simp add: field_simps)
    then show ?thesis by (simp only: of_int_less_iff)
  qed
  have gt: "(1 / 2 < rat_of_int (p mod q) / of_int q) = (q < 2 * (p mod q))"
  proof -
    have "(1 / 2 < rat_of_int (p mod q) / of_int q) = (rat_of_int q < of_int (2 * (p mod q)))"
      using qpos by (simp add: field_simps)
    then show ?thesis by (simp only: of_int_less_iff)
  qed
  show ?thesis
    unfolding roundHalfEven_def f d lt gt by simp
qed

lemma roundHalfEven_numeral:
  "roundHalfEven (numeral a / numeral b) =
           (if 2 * (numeral a mod numeral b) < (numeral b :: int) then numeral a div numeral b
            else if (numeral b :: int) < 2 * (numeral a mod numeral b) then numeral a div numeral b + 1
            else if even (numeral a div numeral b :: int) then numeral a div numeral b
            else numeral a div numeral b + 1)"
  using roundHalfEven_fraction[of "numeral b" "numeral a"] by simp

text \<open>
  Rounding does not cross the points of a grid of spacing \<open>2\<^sup>-\<^sup>j\<close> as long as the value
  has fewer than 53 bits above that grid; with \<open>j = 0\<close>: rounding does not cross an
  integer below \<open>2\<^sup>5\<^sup>3\<close>.
\<close>

lemma dblPos_grid:
  assumes "0 < x" and "x * 2 ^ j < 2 ^ 53"
    and "of_int A \<le> x * 2 ^ j" and "x * 2 ^ j \<le> of_int B"
  shows "of_int A \<le> dblPos x * 2 ^ j \<and> dblPos x * 2 ^ j \<le> of_int B"
  using assms
proof (induction x arbitrary: j A B rule: dblPos.induct)
  case (1 x)
  have p2: "(1::rat) \<le> 2 ^ j" by simp
  have xlt: "x < 2 ^ 53"
  proof -
    have "x * 1 \<le> x * 2 ^ j" using "1.prems"(1) p2 by (intro mult_left_mono) simp_all
    then show ?thesis using "1.prems"(2) by simp
  qed
  show ?case
  proof (cases "x < 2 ^ 52")
    case True
    have step: "dblPos x = dblPos (2 * x) / 2"
      using True "1.prems"(1) xlt by (subst dblPos.simps) simp
    show ?thesis
    proof (cases j)
      case 0
      have "of_int (2 * A) \<le> dblPos (2 * x) * 2 ^ 0 \<and> dblPos (2 * x) * 2 ^ 0 \<le> of_int (2 * B)"
      proof (rule "1.IH"(2))
        show "\<not> 2 ^ 53 \<le> x" using xlt by simp
        show "0 < x \<and> x < 2 ^ 52" using True "1.prems"(1) by simp
        show "0 < 2 * x" using "1.prems"(1) by simp
        show "2 * x * 2 ^ 0 < 2 ^ 53" using True by simp
        show "of_int (2 * A) \<le> 2 * x * 2 ^ 0" using "1.prems"(3) 0 by simp
        show "2 * x * 2 ^ 0 \<le> of_int (2 * B)" using "1.prems"(4) 0 by simp
      qed
      then show ?thesis using step 0 by simp
    next
      case (Suc j')
      have "of_int A \<le> dblPos (2 * x) * 2 ^ j' \<and> dblPos (2 * x) * 2 ^ j' \<le> of_int B"
      proof (rule "1.IH"(2))
        show "\<not> 2 ^ 53 \<le> x" using xlt by simp
        show "0 < x \<and> x < 2 ^ 52" using True "1.prems"(1) by simp
        show "0 < 2 * x" using "1.prems"(1) by simp
        show "2 * x * 2 ^ j' < 2 ^ 53" using "1.prems"(2) Suc by (simp add: mult.assoc mult.left_commute)
        show "of_int A \<le> 2 * x * 2 ^ j'" using "1.prems"(3) Suc by (simp add: mult.assoc mult.left_commute)
        show "2 * x * 2 ^ j' \<le> of_int B" using "1.prems"(4) Suc by (simp add: mult.assoc mult.left_commute)
      qed
      moreover have "dblPos x * 2 ^ j = dblPos (2 * x) * 2 ^ j'"
        using step Suc by simp
      ultimately show ?thesis by simp
    qed
  next
    case False
    have base: "dblPos x = of_int (roundHalfEven x)"
      using False xlt by (subst dblPos.simps) simp
    have j0: "j = 0"
    proof (rule ccontr)
      assume "j \<noteq> 0"
      then have "(2::rat) \<le> 2 ^ j" by (cases j) simp_all
      then have "x * 2 \<le> x * 2 ^ j" using "1.prems"(1) by (intro mult_left_mono) simp_all
      then show False using False "1.prems"(2) by simp
    qed
    from roundHalfEven_between[of A x B] "1.prems"(3,4) j0
    show ?thesis by (simp add: base)
  qed
qed

text \<open>A value with fewer than 53 bits is a double: rounding leaves it as it is.\<close>

lemma dblPos_exact:
  assumes "0 < x" and "x * 2 ^ j = of_int n" and "n < 2 ^ 53"
  shows "dblPos x = x"
proof -
  have lt: "x * 2 ^ j < 2 ^ 53"
  proof -
    have "rat_of_int n < of_int (2 ^ 53)" using assms(3) by (simp only: of_int_less_iff)
    then show ?thesis using assms(2) by simp
  qed
  from dblPos_grid[OF assms(1) lt, of n n] assms(2)
  have "dblPos x * 2 ^ j = x * 2 ^ j" by simp
  then show ?thesis by simp
qed

lemma dbl_exact:
  assumes "0 \<le> x" and "x * 2 ^ j = of_int n" and "n < 2 ^ 53"
  shows "dbl x = x"
proof (cases "x = 0")
  case True
  then show ?thesis by (simp add: dbl_def)
next
  case False
  with assms(1) have "0 < x" by simp
  then show ?thesis using dblPos_exact[OF _ assms(2,3)] by (simp add: dbl_def)
qed

lemma dbl_of_nat:
  assumes "n < 2 ^ 53"
  shows "dbl (of_nat n) = of_nat n"
proof (rule dbl_exact[where j = 0 and n = "int n"])
  show "(0::rat) \<le> of_nat n" by simp
  show "rat_of_nat n * 2 ^ 0 = of_int (int n)" by simp
  have "int n < int (2 ^ 53)" using assms by (simp only: of_nat_less_iff)
  then show "int n < 2 ^ 53" by simp
qed

text \<open>Evaluating the rounding of a positive value, given the scale of its mantissa.\<close>

lemma dblPos_eval:
  assumes "2 ^ 52 \<le> x * 2 ^ k" and "x * 2 ^ k < 2 ^ 53"
  shows "dblPos x = of_int (roundHalfEven (x * 2 ^ k)) / 2 ^ k"
  using assms
proof (induction k arbitrary: x)
  case 0
  then show ?case by (subst dblPos.simps) simp
next
  case (Suc k)
  have pos: "0 < x"
  proof (rule ccontr)
    assume "\<not> 0 < x"
    then have "x * 2 ^ Suc k \<le> 0" by (simp add: mult_le_0_iff)
    with Suc.prems(1) show False by simp
  qed
  have small: "x < 2 ^ 52"
  proof -
    have "x * 2 \<le> x * 2 ^ Suc k" using pos by (intro mult_left_mono) simp_all
    then show ?thesis using Suc.prems(2) by simp
  qed
  have step: "dblPos x = dblPos (2 * x) / 2"
    using pos small by (subst dblPos.simps) simp
  have "dblPos (2 * x) = of_int (roundHalfEven (2 * x * 2 ^ k)) / 2 ^ k"
    using Suc.prems by (intro Suc.IH) (simp_all add: mult.assoc mult.left_commute)
  then show ?case
    using step by (simp add: mult.assoc mult.left_commute)
qed

lemma dbl_eval:
  assumes "2 ^ 52 \<le> x * 2 ^ k" and "x * 2 ^ k < 2 ^ 53"
  shows "dbl x = of_int (roundHalfEven (x * 2 ^ k)) / 2 ^ k"
proof -
  have "0 < x"
  proof (rule ccontr)
    assume "\<not> 0 < x"
    then have "x * 2 ^ k \<le> 0" by (simp add: mult_le_0_iff)
    with assms(1) show False by simp
  qed
  then show ?thesis using dblPos_eval[OF assms] by (simp add: dbl_def)
qed


subsection \<open>Reading the trace of the offline render\<close>

lemma videoSubmissions_append:
  "videoSubmissions (xs @ ys) = videoSubmissions xs @ videoSubmissions ys"
  by (induction xs rule: videoSubmissions.induct) simp_all

lemma audioSubmissions_append:
  "audioSubmissions (xs @ ys) = audioSubmissions xs @ audioSubmissions ys"
  by (induction xs rule: audioSubmissions.induct) simp_all

lemma videoSubmissions_none:
  "\<forall>e \<in> set xs. \<not> isEncode e \<Longrightarrow> videoSubmissions xs = []"
  by (induction xs rule: videoSubmissions.induct) (simp_all add: isEncode_def)

lemma decodeTracks_events_set:
  "e \<in> set (fst (decodeTracks env ts)) \<Longrightarrow> \<exists>f. e = DecodeAudioData f"
  by (induction ts) (auto split: sum.splits prod.splits)

lemma negotiateCodec_events_set:
  "e \<in> set (fst (negotiateCodec env)) \<Longrightarrow> (\<exists>c. e = IsConfigSupported c) \<or> e = ConsoleWarn"
  by (auto simp: negotiateCodec_def split: probe.splits)

lemma audioSubmissions_none:
  "\<forall>e \<in> set xs. \<not> isEncode e \<Longrightarrow> audioSubmissions xs = []"
  by (induction xs rule: audioSubmissions.induct) (simp_all add: isEncode_def)

lemma audioChunks_events_set:
  "e \<in> set (audioChunks offset n) \<Longrightarrow> \<exists>t k off. e = AudioEncode t k off"
proof (induction offset n rule: audioChunks.induct)
  case (1 offset totalSamples)
  from "1.prems" show ?case
    by (subst (asm) audioChunks.simps) (auto split: if_splits dest: "1.IH")
qed

lemma setupGraph_events_set:
  "e \<in> set (setupGraph bufs st) \<Longrightarrow> isGraphEvent e"
  by (auto simp: setupGraph_def isGraphEvent_def)


subsection \<open>Playlist reordering\<close>

text \<open>
  Claim C10. For an index of the playlist, \<^verbatim>\<open>moveTrack\<close> leaves the playlist as it
  is when the first track is moved up or the last track is moved down; in every other
  case the result is the playlist with the entries at the index and at its neighbour
  exchanged. Either way the length and the multiset of entries are those of the
  playlist. (The buttons call it with the position of a rendered track, so the index
  is below the length.)
\<close>

theorem moveTrack_swaps_neighbours:
  assumes "index < length tracks"
  shows "((direction = Up \<and> index = 0) \<or> (direction = Down \<and> index = length tracks - 1)
           \<longrightarrow> moveTrack tracks index direction = tracks)
       \<and> (\<not> ((direction = Up \<and> index = 0) \<or> (direction = Down \<and> index = length tracks - 1))
           \<longrightarrow> moveTrack tracks index direction =
               (let targetIndex = (if direction = Up then index - 1 else index + 1)
                in tracks[index := tracks ! targetIndex, targetIndex := tracks ! index]))
       \<and> length (moveTrack tracks index direction) = length tracks
       \<and> mset (moveTrack tracks index direction) = mset tracks"
proof -
  let ?edge = "(direction = Up \<and> index = 0) \<or> (direction = Down \<and> index = length tracks - 1)"
  let ?t = "if direction = Up then index - 1 else index + 1"
  have edge_int: "((direction = Up \<and> index = 0) \<or>
         (direction = Down \<and> int index = int (length tracks) - 1)) = ?edge"
    using assms by (cases tracks) auto
  have stay: "?edge \<Longrightarrow> moveTrack tracks index direction = tracks"
    unfolding moveTrack_def edge_int by simp
  have t_in: "\<not> ?edge \<Longrightarrow> ?t < length tracks"
    using assms by (cases direction) auto
  have swap: "moveTrack tracks index direction =
      tracks[index := tracks ! ?t, ?t := tracks ! index]" if "\<not> ?edge"
  proof -
    from that have e: "?edge = False" by blast
    have "moveTrack tracks index direction =
       js_set (js_set tracks index (js_get tracks ?t)) ?t (js_get tracks index)"
      unfolding moveTrack_def edge_int e by (simp only: if_False Let_def)
    then show ?thesis
      using t_in[OF that] assms by (simp add: js_get_def js_set_def)
  qed
  have len: "length (moveTrack tracks index direction) = length tracks"
  proof (cases ?edge)
    case True then show ?thesis using stay by simp
  next
    case False then show ?thesis using swap by simp
  qed
  have ms: "mset (moveTrack tracks index direction) = mset tracks"
  proof (cases ?edge)
    case True then show ?thesis using stay by simp
  next
    case False
    then show ?thesis using swap[OF False] mset_swap_update[OF assms t_in[OF False]] by simp
  qed
  show ?thesis using stay swap len ms by (simp add: Let_def)
qed

theorem moveTrack_swaps_neighbours_witness:
  "(1::nat) < length [Some (10::nat), Some 20, Some 30]
   \<and> moveTrack [Some (10::nat), Some 20, Some 30] 1 Up = [Some 20, Some 10, Some 30]
   \<and> moveTrack [Some (10::nat), Some 20, Some 30] 1 Down = [Some 10, Some 30, Some 20]
   \<and> moveTrack [Some (10::nat), Some 20, Some 30] 0 Up = [Some 10, Some 20, Some 30]
   \<and> moveTrack [Some (10::nat), Some 20, Some 30] 2 Down = [Some 10, Some 20, Some 30]
   \<and> mset (moveTrack [Some (10::nat), Some 20, Some 30] 1 Up) = mset [Some 10, Some 20, Some 30]"
  using moveTrack_swaps_neighbours [of 1 "[Some (10::nat), Some 20, Some 30]" Up]
        moveTrack_swaps_neighbours [of 1 "[Some (10::nat), Some 20, Some 30]" Down]
        moveTrack_swaps_neighbours [of 0 "[Some (10::nat), Some 20, Some 30]" Up]
        moveTrack_swaps_neighbours [of 2 "[Some (10::nat), Some 20, Some 30]" Down]
  by (simp add: Let_def)

lemma decodeTracks_fails:
  assumes "k < length ts"
    and "decodeAudioData env (track_file (ts ! k)) = Inl message"
    and "\<forall>j<k. \<exists>b. decodeAudioData env (track_file (ts ! j)) = Inr b"
  shows "decodeTracks env ts =
           (map (\<lambda>t. DecodeAudioData (track_file t)) (take (Suc k) ts), Inl message)"
  using assms
proof (induction ts arbitrary: k)
  case Nil
  then show ?case by simp
next
  case (Cons t ts)
  show ?case
  proof (cases k)
    case 0
    with Cons.prems show ?thesis by simp
  next
    case (Suc k')
    from Cons.prems(3) Suc obtain b where b: "decodeAudioData env (track_file t) = Inr b"
      by fastforce
    have "decodeTracks env ts =
           (map (\<lambda>t. DecodeAudioData (track_file t)) (take (Suc k') ts), Inl message)"
    proof (rule Cons.IH)
      show "k' < length ts" using Cons.prems(1) Suc by simp
      show "decodeAudioData env (track_file (ts ! k')) = Inl message"
        using Cons.prems(2) Suc by simp
      show "\<forall>j<k'. \<exists>b. decodeAudioData env (track_file (ts ! j)) = Inr b"
        using Cons.prems(3) Suc by fastforce
    qed
    then show ?thesis using b Suc by simp
  qed
qed

subsection \<open>A track that fails to decode\<close>

text \<open>
  Claim C5. When the file picker has returned a handle and the track at position \<open>k\<close>
  is the first whose decoding throws, the render ends as failed with the decoder's
  message, which is shown in the error alert. The trace is exactly: the start of the
  render, the decoding calls up to that track, the error report and the reset of
  \<^verbatim>\<open>isRendering\<close>. No offline audio graph is built (no partial timeline) and nothing
  is submitted to the video encoder or to the audio encoder.
\<close>

theorem decode_failure_aborts:
  assumes "hasShowSaveFilePicker env" and "showSaveFilePicker env"
    and "k < length (playlist st)"
    and "decodeAudioData env (track_file (playlist st ! k)) = Inl message"
    and "\<forall>j<k. \<exists>b. decodeAudioData env (track_file (playlist st ! j)) = Inr b"
  shows "snd (startOfflineRendering env st) = Failed message
       \<and> fst (startOfflineRendering env st) =
           [ShowSaveFilePicker, SetShowRenderModal False, SetIsRendering True,
            SetRenderProgress 0, SetRenderStatusText Preparing, NewAudioContext]
           @ map (\<lambda>t. DecodeAudioData (track_file t)) (take (Suc k) (playlist st))
           @ [ConsoleError, AlertError message, SetIsRendering False]
       \<and> filter isGraphEvent (fst (startOfflineRendering env st)) = []
       \<and> videoSubmissions (fst (startOfflineRendering env st)) = []
       \<and> audioSubmissions (fst (startOfflineRendering env st)) = []"
proof -
  let ?tr = "[ShowSaveFilePicker, SetShowRenderModal False, SetIsRendering True,
            SetRenderProgress 0, SetRenderStatusText Preparing, NewAudioContext]
           @ map (\<lambda>t. DecodeAudioData (track_file t)) (take (Suc k) (playlist st))
           @ [ConsoleError, AlertError message, SetIsRendering False]"
  have d: "decodeTracks env (playlist st) =
           (map (\<lambda>t. DecodeAudioData (track_file t)) (take (Suc k) (playlist st)), Inl message)"
    by (rule decodeTracks_fails[OF assms(3,4,5)])
  have run: "startOfflineRendering env st = (?tr, Failed message)"
    using assms(1,2) d by (simp add: startOfflineRendering_def renderBody_def)
  have g: "filter isGraphEvent ?tr = []"
    by (simp add: isGraphEvent_def)
  have ne: "\<forall>e \<in> set ?tr. \<not> isEncode e"
    by (auto simp: isEncode_def)
  show ?thesis
    unfolding run fst_conv snd_conv
    using g videoSubmissions_none[OF ne] audioSubmissions_none[OF ne] by blast
qed

theorem decode_failure_aborts_witness:
  "snd (startOfflineRendering badSecondTrackBrowser scenarioStudio)
     = Failed ''Unable to decode audio data''
   \<and> fst (startOfflineRendering badSecondTrackBrowser scenarioStudio) =
       [ShowSaveFilePicker, SetShowRenderModal False, SetIsRendering True,
        SetRenderProgress 0, SetRenderStatusText Preparing, NewAudioContext,
        DecodeAudioData [1], DecodeAudioData [2],
        ConsoleError, AlertError ''Unable to decode audio data'', SetIsRendering False]
   \<and> videoSubmissions (fst (startOfflineRendering badSecondTrackBrowser scenarioStudio)) = []
   \<and> audioSubmissions (fst (startOfflineRendering badSecondTrackBrowser scenarioStudio)) = []"
proof -
  have 1: "hasShowSaveFilePicker badSecondTrackBrowser"
    and 2: "showSaveFilePicker badSecondTrackBrowser"
    by (simp_all add: badSecondTrackBrowser_def workingBrowser_def)
  have 3: "1 < length (playlist scenarioStudio)"
    by (simp add: scenarioStudio_def)
  have 4: "decodeAudioData badSecondTrackBrowser (track_file (playlist scenarioStudio ! 1))
            = Inl ''Unable to decode audio data''"
    by (simp add: badSecondTrackBrowser_def workingBrowser_def scenarioStudio_def)
  have 5: "\<forall>j<1. \<exists>b. decodeAudioData badSecondTrackBrowser
              (track_file (playlist scenarioStudio ! j)) = Inr b"
    by (simp add: badSecondTrackBrowser_def workingBrowser_def scenarioStudio_def)
  have tk: "map (\<lambda>t. DecodeAudioData (track_file t)) (take (Suc 1) (playlist scenarioStudio))
            = [DecodeAudioData [1], DecodeAudioData [2]]"
    by (simp add: scenarioStudio_def)
  note r = decode_failure_aborts[OF 1 2 3 4 5, unfolded tk]
  show ?thesis
    using r by simp
qed


lemma occursBefore_snoc_new:
  assumes "b \<notin> set xs" and "a \<in> set xs"
  shows "occursBefore a b (xs @ [b])"
proof -
  have "takeWhile (\<lambda>e. e \<noteq> b) (xs @ [b]) = xs @ takeWhile (\<lambda>e. e \<noteq> b) [b]"
    using assms(1) by (intro takeWhile_append2) auto
  then show ?thesis using assms(2) by (simp add: occursBefore_def)
qed

lemma occursBefore_append:
  assumes "b \<in> set xs" and "occursBefore a b xs"
  shows "occursBefore a b (xs @ ys)"
proof -
  have "takeWhile (\<lambda>e. e \<noteq> b) (xs @ ys) = takeWhile (\<lambda>e. e \<noteq> b) xs"
    using assms(1) by (intro takeWhile_append1[of b]) auto
  then show ?thesis using assms(2) by (simp add: occursBefore_def)
qed

lemma queueInvI:
  assumes "promises s \<noteq> []" and "promises s ! 0 = Resolved"
    and "writeQueueRef s = length (promises s) - 1"
    and "\<And>p. 0 < p \<Longrightarrow> p < length (promises s) \<Longrightarrow> \<exists>ph. promises s ! p = Chained (p - 1) ph"
    and "\<And>a p. 0 < a \<Longrightarrow> a < p \<Longrightarrow> p < length (promises s)
           \<Longrightarrow> promises s ! p \<noteq> Chained (p - 1) Waiting
           \<Longrightarrow> promises s ! a = Chained (a - 1) Settled"
    and "\<And>p. WriteBegin p \<in> set (sinkLog s)
           \<Longrightarrow> 0 < p \<and> p < length (promises s) \<and> promises s ! p \<noteq> Chained (p - 1) Waiting"
    and "\<And>p. 0 < p \<Longrightarrow> p < length (promises s) \<Longrightarrow> promises s ! p = Chained (p - 1) Settled
           \<Longrightarrow> WriteEnd p \<in> set (sinkLog s)"
    and "\<And>a b. 0 < a \<Longrightarrow> a < b \<Longrightarrow> WriteBegin b \<in> set (sinkLog s)
           \<Longrightarrow> occursBefore (WriteEnd a) (WriteBegin b) (sinkLog s)"
  shows "queueInv s"
  unfolding queueInv_def using assms by blast

lemma queueInvD:
  assumes "queueInv s"
  shows "promises s \<noteq> []" and "promises s ! 0 = Resolved"
    and "writeQueueRef s = length (promises s) - 1"
    and "\<And>p. 0 < p \<Longrightarrow> p < length (promises s) \<Longrightarrow> \<exists>ph. promises s ! p = Chained (p - 1) ph"
    and "\<And>a p. 0 < a \<Longrightarrow> a < p \<Longrightarrow> p < length (promises s)
           \<Longrightarrow> promises s ! p \<noteq> Chained (p - 1) Waiting
           \<Longrightarrow> promises s ! a = Chained (a - 1) Settled"
    and "\<And>p. WriteBegin p \<in> set (sinkLog s)
           \<Longrightarrow> 0 < p \<and> p < length (promises s) \<and> promises s ! p \<noteq> Chained (p - 1) Waiting"
    and "\<And>p. 0 < p \<Longrightarrow> p < length (promises s) \<Longrightarrow> promises s ! p = Chained (p - 1) Settled
           \<Longrightarrow> WriteEnd p \<in> set (sinkLog s)"
    and "\<And>a b. 0 < a \<Longrightarrow> a < b \<Longrightarrow> WriteBegin b \<in> set (sinkLog s)
           \<Longrightarrow> occursBefore (WriteEnd a) (WriteBegin b) (sinkLog s)"
  using assms unfolding queueInv_def by blast+

lemma initialQueue_inv: "queueInv initialQueue"
  by (rule queueInvI) (simp_all add: initialQueue_def)

lemma enqueue_inv:
  assumes inv: "queueInv s"
  shows "queueInv (s\<lparr>promises := promises s @ [Chained (writeQueueRef s) Waiting],
                     writeQueueRef := length (promises s)\<rparr>)"
proof -
  let ?ps = "promises s"
  let ?n = "length ?ps"
  note d = queueInvD[OF inv]
  define s' where "s' = s\<lparr>promises := ?ps @ [Chained (writeQueueRef s) Waiting],
                     writeQueueRef := ?n\<rparr>"
  have ps': "promises s' = ?ps @ [Chained (?n - 1) Waiting]"
    and wq': "writeQueueRef s' = ?n" and log': "sinkLog s' = sinkLog s"
    by (simp_all add: s'_def d(3))
  have len': "length (promises s') = Suc ?n"
    by (simp add: ps')
  have old: "promises s' ! p = ?ps ! p" if "p < ?n" for p
    using that by (simp add: ps' nth_append)
  have new: "promises s' ! ?n = Chained (?n - 1) Waiting"
    by (simp add: ps')
  have "queueInv s'"
  proof (rule queueInvI)
    show "promises s' \<noteq> []" by (simp add: ps')
    show "promises s' ! 0 = Resolved" using d(1,2) old[of 0] by simp
    show "writeQueueRef s' = length (promises s') - 1" by (simp add: wq' len')
  next
    fix p assume "0 < p" "p < length (promises s')"
    then consider "p < ?n" | "p = ?n" using len' by linarith
    then show "\<exists>ph. promises s' ! p = Chained (p - 1) ph"
    proof cases
      case 1 then show ?thesis using d(4)[OF \<open>0 < p\<close>] old by simp
    next
      case 2 then show ?thesis using new by simp
    qed
  next
    fix a p
    assume h: "0 < a" "a < p" "p < length (promises s')"
      "promises s' ! p \<noteq> Chained (p - 1) Waiting"
    then have p: "p < ?n" using new len' by (cases "p = ?n") auto
    then show "promises s' ! a = Chained (a - 1) Settled"
      using h d(5)[of a p] old[of a] old[of p] by simp
  next
    fix p assume "WriteBegin p \<in> set (sinkLog s')"
    then have "0 < p \<and> p < ?n \<and> ?ps ! p \<noteq> Chained (p - 1) Waiting"
      using d(6) log' by simp
    then show "0 < p \<and> p < length (promises s') \<and> promises s' ! p \<noteq> Chained (p - 1) Waiting"
      using old[of p] len' by simp
  next
    fix p assume h: "0 < p" "p < length (promises s')"
      "promises s' ! p = Chained (p - 1) Settled"
    then have p: "p < ?n" using new len' by (cases "p = ?n") auto
    then show "WriteEnd p \<in> set (sinkLog s')"
      using h d(7)[of p] old[of p] log' by simp
  next
    fix a b assume "0 < a" "a < b" "WriteBegin b \<in> set (sinkLog s')"
    then show "occursBefore (WriteEnd a) (WriteBegin b) (sinkLog s')"
      using d(8) log' by simp
  qed
  then show ?thesis by (simp add: s'_def)
qed


lemma runCallback_inv:
  assumes inv: "queueInv s"
    and p: "p < length (promises s)" and w: "promises s ! p = Chained q Waiting"
    and q: "q < length (promises s)" and qs: "isSettled (promises s ! q)"
  shows "queueInv (s\<lparr>promises := (promises s)[p := Chained q Writing],
                     sinkLog := sinkLog s @ [WriteBegin p]\<rparr>)"
proof -
  let ?ps = "promises s"
  let ?n = "length ?ps"
  note d = queueInvD[OF inv]
  have p0: "0 < p" using d(2) w by (cases p) auto
  have qp: "q = p - 1" using d(4)[OF p0 p] w by auto
  have pw: "?ps ! p = Chained (p - 1) Waiting" using w qp by simp
  have fresh: "WriteBegin p \<notin> set (sinkLog s)"
    using d(6)[of p] pw by auto
  have before: "?ps ! a = Chained (a - 1) Settled" if "0 < a" "a < p" for a
  proof (cases "a = p - 1")
    case True
    have "a < ?n" using that p by simp
    with \<open>0 < a\<close> have "\<exists>ph. ?ps ! a = Chained (a - 1) ph" by (rule d(4))
    then obtain ph where "?ps ! a = Chained (a - 1) ph" by blast
    with qs qp True show ?thesis by (simp add: isSettled_def)
  next
    case False
    with that have lt: "a < p - 1" by simp
    have "0 < p - 1" using that lt by simp
    moreover have "p - 1 < ?n" using p by simp
    ultimately have "\<exists>ph. ?ps ! (p - 1) = Chained (p - 1 - 1) ph" by (rule d(4))
    then obtain ph where ph: "?ps ! (p - 1) = Chained (p - 1 - 1) ph" by blast
    with qs qp have "ph = Settled" by (simp add: isSettled_def)
    with ph have "?ps ! (p - 1) \<noteq> Chained (p - 1 - 1) Waiting" by simp
    then show ?thesis
      using d(5)[of a "p - 1"] that lt p by simp
  qed
  define s' where "s' = s\<lparr>promises := ?ps[p := Chained q Writing],
                     sinkLog := sinkLog s @ [WriteBegin p]\<rparr>"
  have ps': "promises s' = ?ps[p := Chained (p - 1) Writing]"
    and wq': "writeQueueRef s' = writeQueueRef s"
    and log': "sinkLog s' = sinkLog s @ [WriteBegin p]"
    by (simp_all add: s'_def qp)
  have len': "length (promises s') = ?n" by (simp add: ps')
  have other: "promises s' ! x = ?ps ! x" if "x \<noteq> p" for x
    using that by (simp add: ps')
  have self: "promises s' ! p = Chained (p - 1) Writing"
    using p by (simp add: ps')
  have "queueInv s'"
  proof (rule queueInvI)
    show "promises s' \<noteq> []" using d(1) by (simp add: ps')
    show "promises s' ! 0 = Resolved" using d(2) p0 other[of 0] by simp
    show "writeQueueRef s' = length (promises s') - 1" using d(3) by (simp add: wq' len')
  next
    fix x assume "0 < x" "x < length (promises s')"
    then show "\<exists>ph. promises s' ! x = Chained (x - 1) ph"
      using d(4)[of x] other[of x] self len' by (cases "x = p") auto
  next
    fix a x
    assume h: "0 < a" "a < x" "x < length (promises s')"
      "promises s' ! x \<noteq> Chained (x - 1) Waiting"
    show "promises s' ! a = Chained (a - 1) Settled"
    proof (cases "x = p")
      case True
      then show ?thesis using before[of a] h other[of a] by simp
    next
      case False
      then have old: "?ps ! a = Chained (a - 1) Settled"
        using d(5)[of a x] h other[of x] len' by simp
      then have "a \<noteq> p" using pw by auto
      then show ?thesis using old other[of a] by simp
    qed
  next
    fix x assume h: "WriteBegin x \<in> set (sinkLog s')"
    show "0 < x \<and> x < length (promises s') \<and> promises s' ! x \<noteq> Chained (x - 1) Waiting"
    proof (cases "x = p")
      case True
      then show ?thesis using p0 p self len' by simp
    next
      case False
      then have "WriteBegin x \<in> set (sinkLog s)" using h log' by simp
      then show ?thesis using d(6)[of x] other[OF False] len' by simp
    qed
  next
    fix x assume h: "0 < x" "x < length (promises s')"
      "promises s' ! x = Chained (x - 1) Settled"
    then have "x \<noteq> p" using self by auto
    then show "WriteEnd x \<in> set (sinkLog s')"
      using h d(7)[of x] other[of x] len' log' by simp
  next
    fix a b assume h: "0 < a" "a < b" "WriteBegin b \<in> set (sinkLog s')"
    show "occursBefore (WriteEnd a) (WriteBegin b) (sinkLog s')"
    proof (cases "b = p")
      case True
      have "WriteEnd a \<in> set (sinkLog s)"
        using d(7)[of a] before[of a] h p True by simp
      then show ?thesis
        unfolding log' True by (rule occursBefore_snoc_new[OF fresh])
    next
      case False
      then have b: "WriteBegin b \<in> set (sinkLog s)" using h log' by simp
      show ?thesis
        unfolding log' by (rule occursBefore_append[OF b d(8)[OF h(1,2) b]])
    qed
  qed
  then show ?thesis by (simp add: s'_def)
qed

lemma writeSettles_inv:
  assumes inv: "queueInv s"
    and p: "p < length (promises s)" and w: "promises s ! p = Chained q Writing"
  shows "queueInv (s\<lparr>promises := (promises s)[p := Chained q Settled],
                     sinkLog := sinkLog s @ [WriteEnd p]\<rparr>)"
proof -
  let ?ps = "promises s"
  let ?n = "length ?ps"
  note d = queueInvD[OF inv]
  have p0: "0 < p" using d(2) w by (cases p) auto
  have qp: "q = p - 1" using d(4)[OF p0 p] w by auto
  have pw: "?ps ! p = Chained (p - 1) Writing" using w qp by simp
  define s' where "s' = s\<lparr>promises := ?ps[p := Chained q Settled],
                     sinkLog := sinkLog s @ [WriteEnd p]\<rparr>"
  have ps': "promises s' = ?ps[p := Chained (p - 1) Settled]"
    and wq': "writeQueueRef s' = writeQueueRef s"
    and log': "sinkLog s' = sinkLog s @ [WriteEnd p]"
    by (simp_all add: s'_def qp)
  have len': "length (promises s') = ?n" by (simp add: ps')
  have other: "promises s' ! x = ?ps ! x" if "x \<noteq> p" for x
    using that by (simp add: ps')
  have self: "promises s' ! p = Chained (p - 1) Settled"
    using p by (simp add: ps')
  have "queueInv s'"
  proof (rule queueInvI)
    show "promises s' \<noteq> []" using d(1) by (simp add: ps')
    show "promises s' ! 0 = Resolved" using d(2) p0 other[of 0] by simp
    show "writeQueueRef s' = length (promises s') - 1" using d(3) by (simp add: wq' len')
  next
    fix x assume "0 < x" "x < length (promises s')"
    then show "\<exists>ph. promises s' ! x = Chained (x - 1) ph"
      using d(4)[of x] other[of x] self len' by (cases "x = p") auto
  next
    fix a x
    assume h: "0 < a" "a < x" "x < length (promises s')"
      "promises s' ! x \<noteq> Chained (x - 1) Waiting"
    have "?ps ! x \<noteq> Chained (x - 1) Waiting"
      using h(4) other[of x] pw by (cases "x = p") auto
    then have old: "?ps ! a = Chained (a - 1) Settled"
      using d(5)[of a x] h len' by simp
    then show "promises s' ! a = Chained (a - 1) Settled"
      using other[of a] self by (cases "a = p") auto
  next
    fix x assume h: "WriteBegin x \<in> set (sinkLog s')"
    then have "WriteBegin x \<in> set (sinkLog s)" using log' by simp
    then have "0 < x \<and> x < ?n \<and> ?ps ! x \<noteq> Chained (x - 1) Waiting"
      using d(6)[of x] by simp
    then show "0 < x \<and> x < length (promises s') \<and> promises s' ! x \<noteq> Chained (x - 1) Waiting"
      using other[of x] self len' by (cases "x = p") auto
  next
    fix x assume h: "0 < x" "x < length (promises s')"
      "promises s' ! x = Chained (x - 1) Settled"
    then show "WriteEnd x \<in> set (sinkLog s')"
      using d(7)[of x] other[of x] len' log' by (cases "x = p") auto
  next
    fix a b assume h: "0 < a" "a < b" "WriteBegin b \<in> set (sinkLog s')"
    then have b: "WriteBegin b \<in> set (sinkLog s)" using log' by simp
    show "occursBefore (WriteEnd a) (WriteBegin b) (sinkLog s')"
      unfolding log' by (rule occursBefore_append[OF b d(8)[OF h(1,2) b]])
  qed
  then show ?thesis by (simp add: s'_def)
qed

lemma fire_inv:
  assumes "queueInv s" and "fire act s = Some s'"
  shows "queueInv s'"
proof (cases act)
  case (DataAvailable blobSize)
  then show ?thesis
    using assms enqueue_inv[OF assms(1)] by (auto split: if_splits)
next
  case (RunCallback p)
  then show ?thesis
    using assms runCallback_inv[OF assms(1), of p]
    by (auto split: if_splits promise.splits phase.splits)
next
  case (WriteSettles p)
  then show ?thesis
    using assms writeSettles_inv[OF assms(1), of p]
    by (auto split: if_splits promise.splits phase.splits)
qed

lemma run_inv:
  assumes "queueInv s" and "run acts s = Some s'"
  shows "queueInv s'"
  using assms
proof (induction acts arbitrary: s)
  case Nil
  then show ?case by simp
next
  case (Cons act acts)
  from Cons.prems(2) obtain s1 where f: "fire act s = Some s1" and r: "run acts s1 = Some s'"
    by (auto split: option.splits)
  show ?case
    by (rule Cons.IH[OF fire_inv[OF Cons.prems(1) f] r])
qed

subsection \<open>The sequential write queue\<close>

text \<open>
  Claim C8. Take any sequence of recorder deliveries, callback runs and write
  completions that can happen from the start of a render, in any interleaving, also
  with several deliveries before any callback has run (the same tick). Promises are
  numbered in the order in which their writes were enqueued. For two enqueued writes
  \<open>a\<close> before \<open>b\<close>: if the write of \<open>b\<close> has begun on the stream, then the write of
  \<open>a\<close> has settled, and it settled before the write of \<open>b\<close> began. This rests on the
  way the handler chains every new write on the promise the ref held and stores the
  new promise in the ref, and on the rule that a \<^verbatim>\<open>then\<close> callback runs only after
  its promise has settled.
\<close>

theorem write_queue_sequential:
  assumes "run acts initialQueue = Some s"
    and "0 < a" and "a < b" and "WriteBegin b \<in> set (sinkLog s)"
  shows "occursBefore (WriteEnd a) (WriteBegin b) (sinkLog s)"
proof -
  have "queueInv s"
    by (rule run_inv[OF initialQueue_inv assms(1)])
  from queueInvD(8)[OF this assms(2,3,4)] show ?thesis .
qed

theorem write_queue_sequential_witness:
  "run [DataAvailable 5, DataAvailable 7, RunCallback 1, WriteSettles 1,
        RunCallback 2, WriteSettles 2] initialQueue =
     Some \<lparr>promises = [Resolved, Chained 0 Settled, Chained 1 Settled], writeQueueRef = 2,
           sinkLog = [WriteBegin 1, WriteEnd 1, WriteBegin 2, WriteEnd 2]\<rparr>
   \<and> occursBefore (WriteEnd 1) (WriteBegin 2) [WriteBegin 1, WriteEnd 1, WriteBegin 2, WriteEnd 2]
   \<and> run [DataAvailable 5, DataAvailable 7, RunCallback 2] initialQueue = None
   \<and> run [DataAvailable 5, DataAvailable 7, RunCallback 1, RunCallback 2] initialQueue = None"
proof -
  have r: "run [DataAvailable 5, DataAvailable 7, RunCallback 1, WriteSettles 1,
        RunCallback 2, WriteSettles 2] initialQueue =
     Some \<lparr>promises = [Resolved, Chained 0 Settled, Chained 1 Settled], writeQueueRef = 2,
           sinkLog = [WriteBegin 1, WriteEnd 1, WriteBegin 2, WriteEnd 2]\<rparr>"
    by (simp add: initialQueue_def isSettled_def)
  have o: "occursBefore (WriteEnd 1) (WriteBegin 2)
             [WriteBegin 1, WriteEnd 1, WriteBegin 2, WriteEnd 2]"
    using write_queue_sequential[OF r, of 1 2] by simp
  have n1: "run [DataAvailable 5, DataAvailable 7, RunCallback 2] initialQueue = None"
    by (simp add: initialQueue_def isSettled_def)
  have n2: "run [DataAvailable 5, DataAvailable 7, RunCallback 1, RunCallback 2] initialQueue
              = None"
    by (simp add: initialQueue_def isSettled_def)
  show ?thesis
    by (intro conjI) (rule r o n1 n2)+
qed

lemma dbl_one_48000th: "dbl (1 / 48000) = 6148914691236517 / 295147905179352825856"
proof -
  have "dbl (1 / 48000) = of_int (roundHalfEven (1 / 48000 * 2 ^ 68)) / 2 ^ 68"
    by (rule dbl_eval) simp_all
  moreover have "roundHalfEven (1 / 48000 * 2 ^ 68) = 6148914691236517"
    by (simp add: roundHalfEven_numeral)
  ultimately show ?thesis by simp
qed

lemma dbl_one_48000th_again:
  "dbl (6148914691236517 / 295147905179352825856) = 6148914691236517 / 295147905179352825856"
  by (rule dbl_exact[where j = 68 and n = 6148914691236517]) simp_all

lemma dbl_one_48000th_times_48000: "dbl (2305843009213693875 / 2305843009213693952) = 1"
proof -
  have "dbl (2305843009213693875 / 2305843009213693952)
      = of_int (roundHalfEven (2305843009213693875 / 2305843009213693952 * 2 ^ 53)) / 2 ^ 53"
    by (rule dbl_eval) simp_all
  moreover have "roundHalfEven (2305843009213693875 / 2305843009213693952 * 2 ^ 53)
      = 9007199254740992"
    by (simp add: roundHalfEven_numeral)
  ultimately show ?thesis by simp
qed

lemma tiny_totalDuration:
  "totalDuration (playlist tinyStudio) (encoding tinyStudio)
     = 6148914691236517 / 295147905179352825856"
  by (simp add: totalDuration_def playlistDuration_def tinyStudio_def dbl_one_48000th
        dbl_one_48000th_again)

lemma tiny_totalDurationSamples:
  "totalDurationSamples (playlist tinyStudio) (encoding tinyStudio) = 1"
  by (simp add: totalDurationSamples_def tiny_totalDuration sampleRate_def
        dbl_one_48000th_times_48000)

lemma tiny_setupGraph:
  "setupGraph [[1]] tinyStudio =
     [NewOfflineAudioContext 2 1 48000, SourceStart Destination 1 0,
      CreateAnalyser, CreateGain, Connect MasterGain Destination, Connect MasterGain Analyser,
      SourceStart MasterGain 1 0]"
  by (simp add: setupGraph_def tiny_totalDurationSamples directSources_def
        masterGainSources_def sampleRate_def)
     (simp add: tinyStudio_def)

lemma tiny_decode:
  assumes "decodeAudioData env [1] = Inr [1]"
  shows "decodeTracks env (playlist tinyStudio) = ([DecodeAudioData [1]], Inr [[1]])"
  using assms by (simp add: tinyStudio_def)

lemma startFrame_of_nat: "startFrame (of_nat m / of_nat sampleRate) = m"
  by (simp add: startFrame_def sampleRate_def)

lemma mixAt_Cons: "mixAt (src # sources) n = playSample src n + mixAt sources n"
  by (simp add: mixAt_def)

lemma mixAt_append: "mixAt (xs @ ys) n = mixAt xs n + mixAt ys n"
  by (simp add: mixAt_def)

lemma scheduleTracks_mix:
  "snd (scheduleTracks (of_nat m / of_nat sampleRate) bufs)
     = of_nat (m + length (concat bufs)) / of_nat sampleRate
   \<and> mixAt (fst (scheduleTracks (of_nat m / of_nat sampleRate) bufs)) n
     = (if m \<le> n \<and> n < m + length (concat bufs) then concat bufs ! (n - m) else 0)"
proof (induction bufs arbitrary: m)
  case Nil
  show ?case by (simp add: mixAt_def)
next
  case (Cons b bs)
  have st: "of_nat m / of_nat sampleRate + bufferDuration b
            = rat_of_nat (m + length b) / of_nat sampleRate"
    by (simp add: bufferDuration_def add_divide_distrib)
  obtain sources endTime where
    r: "scheduleTracks (of_nat (m + length b) / of_nat sampleRate) bs = (sources, endTime)"
    by (cases "scheduleTracks (rat_of_nat (m + length b) / of_nat sampleRate) bs")
  from Cons.IH[of "m + length b"] r
  have e: "endTime = of_nat (m + length b + length (concat bs)) / of_nat sampleRate"
    and mx: "mixAt sources n =
       (if m + length b \<le> n \<and> n < m + length b + length (concat bs)
        then concat bs ! (n - (m + length b)) else 0)"
    by simp_all
  have sch: "scheduleTracks (of_nat m / of_nat sampleRate) (b # bs)
             = ((b, of_nat m / of_nat sampleRate) # sources, endTime)"
    unfolding scheduleTracks.simps st r by simp
  have ps: "playSample (b, of_nat m / of_nat sampleRate) n
            = (if m \<le> n \<and> n - m < length b then b ! (n - m) else 0)"
    by (simp add: playSample_def startFrame_of_nat)
  have "playSample (b, of_nat m / of_nat sampleRate) n + mixAt sources n
        = (if m \<le> n \<and> n < m + length (concat (b # bs)) then concat (b # bs) ! (n - m) else 0)"
    unfolding ps mx by (auto simp: nth_append)
  then show ?case
    unfolding sch by (simp add: mixAt_Cons e add.assoc)
qed

lemma scheduleLoops_mix:
  "mixAt (scheduleLoops k (of_nat m / of_nat sampleRate) bufs) n
     = (if m \<le> n \<and> n < m + k * length (concat bufs)
        then concat (replicate k (concat bufs)) ! (n - m) else 0)"
proof (induction k arbitrary: m)
  case 0
  show ?case by (simp add: mixAt_def)
next
  case (Suc k)
  let ?L = "length (concat bufs)"
  obtain sources endTime where
    r: "scheduleTracks (of_nat m / of_nat sampleRate) bufs = (sources, endTime)"
    by (cases "scheduleTracks (rat_of_nat m / of_nat sampleRate) bufs")
  from scheduleTracks_mix[of m bufs n] r
  have e: "endTime = of_nat (m + ?L) / of_nat sampleRate"
    and mx: "mixAt sources n = (if m \<le> n \<and> n < m + ?L then concat bufs ! (n - m) else 0)"
    by simp_all
  have len: "length (concat (replicate k (concat bufs))) = k * ?L"
    by (induction k) simp_all
  have "mixAt sources n + mixAt (scheduleLoops k (of_nat (m + ?L) / of_nat sampleRate) bufs) n
        = (if m \<le> n \<and> n < m + Suc k * ?L
           then concat (replicate (Suc k) (concat bufs)) ! (n - m) else 0)"
    unfolding mx Suc.IH by (auto simp: nth_append len)
  then show ?case
    by (simp add: r e mixAt_append)
qed

lemma length_concat_replicate: "length (concat (replicate k xs)) = k * length xs"
  by (induction k) simp_all

subsection \<open>The rendered audio signal\<close>

text \<open>
  Claim C2 says that the rendered signal is the concatenation of \<open>loopCount\<close> copies
  of the decoded playlist and that no sample is scheduled twice into the output. The
  code decodes every track once, but it schedules every buffer twice at the same start
  time: once into the destination directly, and once into \<^verbatim>\<open>masterGain\<close>, which is
  connected to the destination as well. When the context length matches the decoded
  material, the rendered signal is therefore twice the concatenation, sample by sample.
\<close>

theorem rendered_signal_doubled:
  assumes "nat (totalDurationSamples (playlist st) (encoding st))
             = loopCount (encoding st) * length (concat trackBuffers)"
  shows "renderedBuffer trackBuffers st =
           map (\<lambda>x. 2 * x) (concat (replicate (loopCount (encoding st)) (concat trackBuffers)))"
proof -
  let ?k = "loopCount (encoding st)"
  let ?Y = "concat (replicate ?k (concat trackBuffers))"
  have len: "length ?Y = nat (totalDurationSamples (playlist st) (encoding st))"
    using assms by (simp add: length_concat_replicate)
  have mix: "mixAt (scheduleLoops ?k 0 trackBuffers) n = (if n < length ?Y then ?Y ! n else 0)" for n
    using scheduleLoops_mix[of ?k 0 trackBuffers n] by (simp add: length_concat_replicate)
  have "renderedBuffer trackBuffers st = map (\<lambda>n. 2 * (?Y ! n)) [0..<length ?Y]"
    unfolding renderedBuffer_def directSources_def masterGainSources_def len[symmetric]
    by (simp add: mix)
  also have "\<dots> = map (\<lambda>x. 2 * x) (map (\<lambda>n. ?Y ! n) [0..<length ?Y])"
    by (simp add: comp_def)
  also have "\<dots> = map (\<lambda>x. 2 * x) ?Y"
    by (simp only: map_nth)
  finally show ?thesis .
qed

theorem rendered_signal_doubled_witness:
  "snd (decodeTracks workingBrowser (playlist tinyStudio)) = Inr [[1]]
   \<and> nat (totalDurationSamples (playlist tinyStudio) (encoding tinyStudio))
       = loopCount (encoding tinyStudio) * length (concat [[1::rat]])
   \<and> concat (replicate (loopCount (encoding tinyStudio)) (concat [[1::rat]])) = [1]
   \<and> renderedBuffer [[1]] tinyStudio = [2]
   \<and> filter isGraphEvent (setupGraph [[1]] tinyStudio) =
       [NewOfflineAudioContext 2 1 48000, SourceStart Destination 1 0,
        CreateAnalyser, CreateGain, Connect MasterGain Destination, Connect MasterGain Analyser,
        SourceStart MasterGain 1 0]"
proof -
  have d: "snd (decodeTracks workingBrowser (playlist tinyStudio)) = Inr [[1]]"
    by (simp add: tiny_decode workingBrowser_def)
  have k: "loopCount (encoding tinyStudio) = 1"
    by (simp add: tinyStudio_def)
  have h: "nat (totalDurationSamples (playlist tinyStudio) (encoding tinyStudio))
       = loopCount (encoding tinyStudio) * length (concat [[1::rat]])"
    by (simp add: tiny_totalDurationSamples k)
  have c: "concat (replicate (loopCount (encoding tinyStudio)) (concat [[1::rat]])) = [1]"
    by (simp add: k)
  have r: "renderedBuffer [[1]] tinyStudio = [2]"
    using rendered_signal_doubled[OF h] by (simp add: k)
  have g: "filter isGraphEvent (setupGraph [[1]] tinyStudio) =
       [NewOfflineAudioContext 2 1 48000, SourceStart Destination 1 0,
        CreateAnalyser, CreateGain, Connect MasterGain Destination, Connect MasterGain Analyser,
        SourceStart MasterGain 1 0]"
    by (simp add: tiny_setupGraph isGraphEvent_def)
  show ?thesis
    by (intro conjI) (rule d h c r g)+
qed

subsection \<open>The muxer constructor\<close>

lemma setupEncoders_throws:
  "setupEncoders chosenCodec codec st =
     ([SetUsedCodec (if chosenCodec = ''hvc1'' then ''HEVC (H.265)'' else ''AVC (H.264)''),
       CreateWritable,
       NewMuxer (if chosenCodec = ''hvc1'' then ''hvc1'' else ''avc1'')],
      Inl (''Unsupported video codec: ''
             @ (if chosenCodec = ''hvc1'' then ''hvc1'' else ''avc1'')))"
  by (simp add: setupEncoders_def newMuxer_def muxerVideoCodecs_def)

lemma renderBody_events_set:
  assumes "e \<in> set (fst (renderBody env st))"
  shows "e = NewAudioContext \<or> e = AudioContextClose \<or> e = ConsoleWarn
         \<or> e = CreateWritable
         \<or> (\<exists>f. e = DecodeAudioData f) \<or> isGraphEvent e
         \<or> (\<exists>c. e = IsConfigSupported c) \<or> (\<exists>c. e = SetUsedCodec c)
         \<or> (\<exists>c. e = NewMuxer c)"
proof -
  obtain decodeEvents dr where d: "decodeTracks env (playlist st) = (decodeEvents, dr)"
    by (cases "decodeTracks env (playlist st)")
  obtain probeEvents pr where n: "negotiateCodec env = (probeEvents, pr)"
    by (cases "negotiateCodec env")
  have de: "\<And>e. e \<in> set decodeEvents \<Longrightarrow> \<exists>f. e = DecodeAudioData f"
    using decodeTracks_events_set[of _ env "playlist st"] d by simp
  have pe: "\<And>e. e \<in> set probeEvents \<Longrightarrow> (\<exists>c. e = IsConfigSupported c) \<or> e = ConsoleWarn"
    using negotiateCodec_events_set[of _ env] n by simp
  have ge: "\<And>e bufs. e \<in> set (setupGraph bufs st) \<Longrightarrow> isGraphEvent e"
    by (rule setupGraph_events_set)
  have ne: "isGraphEvent
      (NewOfflineAudioContext 2 (totalDurationSamples (playlist st) (encoding st)) sampleRate)"
    by (simp add: isGraphEvent_def)
  show ?thesis
  proof (cases dr)
    case (Inl m)
    with assms d show ?thesis
      using de by (auto simp: renderBody_def)
  next
    case (Inr trackBuffers)
    note dr = this
    show ?thesis
    proof (cases "newOfflineAudioContext (totalDurationSamples (playlist st) (encoding st))")
      case (Inl m)
      with assms d dr show ?thesis
        using de ne by (auto simp: renderBody_def)
    next
      case (Inr u)
      note ctx = this
      show ?thesis
      proof (cases pr)
        case (Inl m)
        with assms d dr ctx n show ?thesis
          using de pe ge by (auto simp: renderBody_def)
      next
        case (Inr ck)
        obtain chosenCodec codec where ck: "ck = (chosenCodec, codec)" by (cases ck)
        from assms d dr ctx n Inr ck show ?thesis
          using de pe ge by (auto simp: renderBody_def setupEncoders_throws)
      qed
    qed
  qed
qed

lemma renderBody_throws: "\<exists>message. snd (renderBody env st) = Inl message"
proof -
  obtain decodeEvents dr where d: "decodeTracks env (playlist st) = (decodeEvents, dr)"
    by (cases "decodeTracks env (playlist st)")
  obtain probeEvents pr where n: "negotiateCodec env = (probeEvents, pr)"
    by (cases "negotiateCodec env")
  show ?thesis
  proof (cases dr)
    case (Inl m)
    with d show ?thesis by (simp add: renderBody_def)
  next
    case (Inr trackBuffers)
    note dr = this
    show ?thesis
    proof (cases "newOfflineAudioContext (totalDurationSamples (playlist st) (encoding st))")
      case (Inl m)
      with d dr show ?thesis by (simp add: renderBody_def)
    next
      case (Inr u)
      note ctx = this
      show ?thesis
      proof (cases pr)
        case (Inl m)
        with d dr ctx n show ?thesis by (simp add: renderBody_def)
      next
        case (Inr ck)
        obtain chosenCodec codec where ck: "ck = (chosenCodec, codec)" by (cases ck)
        from d dr ctx n Inr ck show ?thesis
          by (simp add: renderBody_def setupEncoders_throws)
      qed
    qed
  qed
qed

lemma startOfflineRendering_events_set:
  assumes "e \<in> set (fst (startOfflineRendering env st))"
  shows "e \<in> set (fst (renderBody env st))
         \<or> e \<in> {AlertUnsupportedBrowser, ShowSaveFilePicker, SetShowRenderModal False,
                 SetIsRendering True, SetIsRendering False, SetRenderProgress 0,
                 SetRenderStatusText Preparing, ConsoleError}
         \<or> (\<exists>message. e = AlertError message)"
proof -
  obtain bodyEvents br where b: "renderBody env st = (bodyEvents, br)"
    by (cases "renderBody env st")
  from assms b show ?thesis
    by (cases br) (auto simp: startOfflineRendering_def split: if_splits)
qed

lemma startOfflineRendering_no_encode:
  assumes "e \<in> set (fst (startOfflineRendering env st))"
  shows "\<not> isEncode e"
  using startOfflineRendering_events_set[OF assms] renderBody_events_set[of e env st]
  by (auto simp: isEncode_def isGraphEvent_def split: event.splits)

lemma startOfflineRendering_no_video:
  "videoSubmissions (fst (startOfflineRendering env st)) = []"
  by (rule videoSubmissions_none) (simp add: startOfflineRendering_no_encode)

lemma startOfflineRendering_not_completed:
  "snd (startOfflineRendering env st) \<noteq> Completed"
proof -
  obtain bodyEvents br where b: "renderBody env st = (bodyEvents, br)"
    by (cases "renderBody env st")
  from renderBody_throws[of env st] b obtain message where "br = Inl message" by auto
  with b show ?thesis by (simp add: startOfflineRendering_def)
qed



subsection \<open>Codec negotiation\<close>




subsection \<open>Evaluating the concrete inputs\<close>

lemma dbl_zero: "dbl 0 = 0"
  by (simp add: dbl_def)

lemma dbl_numeral:
  assumes "(numeral k :: nat) < 2 ^ 53"
  shows "dbl (numeral k) = numeral k"
  using dbl_of_nat[OF assms] by simp

lemma scenario_playlistDuration: "playlistDuration (playlist scenarioStudio) = 5"
  by (simp add: playlistDuration_def scenarioStudio_def dbl_numeral)

lemma scenario_totalDuration:
  "totalDuration (playlist scenarioStudio) (encoding scenarioStudio) = 10"
  by (simp add: totalDuration_def scenario_playlistDuration dbl_numeral)
     (simp add: scenarioStudio_def dbl_numeral)

lemma scenario_totalFrames: "totalFrames scenarioStudio = 300"
  by (simp add: totalFrames_def scenario_totalDuration)
     (simp add: scenarioStudio_def dbl_numeral)

lemma scenario_totalDurationSamples:
  "totalDurationSamples (playlist scenarioStudio) (encoding scenarioStudio) = 480000"
  by (simp add: totalDurationSamples_def scenario_totalDuration sampleRate_def dbl_numeral)

lemma scenario_outcome:
  "snd (startOfflineRendering workingBrowser scenarioStudio)
     = Failed ''Unsupported video codec: hvc1''"
proof -
  have d: "decodeTracks workingBrowser (playlist scenarioStudio)
             = ([DecodeAudioData [1], DecodeAudioData [2]], Inr [[1], [2]])"
    by (simp add: scenarioStudio_def workingBrowser_def)
  have n: "negotiateCodec workingBrowser =
     ([IsConfigSupported ''hvc1.1.6.L120.B0''], Inr (''hvc1'', ''hvc1.1.6.L120.B0''))"
    by (simp add: negotiateCodec_def workingBrowser_def)
  have p: "hasShowSaveFilePicker workingBrowser" "showSaveFilePicker workingBrowser"
    by (simp_all add: workingBrowser_def)
  show ?thesis
    by (simp add: startOfflineRendering_def renderBody_def p d n setupEncoders_throws
          scenario_totalDurationSamples newOfflineAudioContext_def)
qed

lemma dbl_69_2048th: "dbl (69 / 2048) = 69 / 2048"
  by (rule dbl_exact[where j = 11 and n = 69]) simp_all

lemma dbl_1035_1024th: "dbl (1035 / 1024) = 1035 / 1024"
  by (rule dbl_exact[where j = 10 and n = 1035]) simp_all

lemma dbl_25875_16th: "dbl (25875 / 16) = 25875 / 16"
  by (rule dbl_exact[where j = 4 and n = 25875]) simp_all

lemma dbl_one_30th: "dbl (1 / 30) = 4803839602528529 / 144115188075855872"
proof -
  have "dbl (1 / 30) = of_int (roundHalfEven (1 / 30 * 2 ^ 57)) / 2 ^ 57"
    by (rule dbl_eval) simp_all
  moreover have "roundHalfEven (1 / 30 * 2 ^ 57) = 4803839602528529"
    by (simp add: roundHalfEven_numeral)
  ultimately show ?thesis by simp
qed

lemma dbl_one_30th_again:
  "dbl (4803839602528529 / 144115188075855872) = 4803839602528529 / 144115188075855872"
  by (rule dbl_exact[where j = 57 and n = 4803839602528529]) simp_all

lemma short_totalDuration:
  "totalDuration (playlist shortStudio) (encoding shortStudio) = 69 / 2048"
  by (simp add: totalDuration_def playlistDuration_def shortStudio_def dbl_69_2048th)

lemma short_totalFrames: "totalFrames shortStudio = 2"
proof -
  have "\<lceil>1035 / 1024 :: rat\<rceil> = 2" by (rule ceiling_unique) simp_all
  then show ?thesis
    by (simp add: totalFrames_def short_totalDuration)
       (simp add: shortStudio_def dbl_1035_1024th)
qed

lemma short_totalDurationSamples:
  "totalDurationSamples (playlist shortStudio) (encoding shortStudio) = 1618"
proof -
  have "\<lceil>25875 / 16 :: rat\<rceil> = 1618" by (rule ceiling_unique) simp_all
  then show ?thesis
    by (simp add: totalDurationSamples_def short_totalDuration sampleRate_def dbl_25875_16th)
qed

lemma short_frameDuration:
  "frameDuration shortStudio = 4803839602528529 / 144115188075855872"
  by (simp add: frameDuration_def shortStudio_def dbl_one_30th)

lemma short_suspensions:
  "suspensions shortStudio = [(0, 0), (4803839602528529 / 144115188075855872, 1)]"
proof -
  have "[0..<nat (totalFrames shortStudio)] = [0, Suc 0]"
    by (simp add: short_totalFrames numeral_2_eq_2)
  then show ?thesis
    by (simp add: suspensions_def short_frameDuration dbl_zero dbl_one_30th_again)
qed

lemma quantumFrame_zero: "quantumFrame 0 = 0"
  by (simp add: quantumFrame_def)

lemma quantumFrame_one_30th:
  "quantumFrame (4803839602528529 / 144115188075855872) = 1664"
proof -
  have "\<lceil>1801439850948198375 / 144115188075855872 :: rat\<rceil> = 13"
    by (rule ceiling_unique) simp_all
  then show ?thesis by (simp add: quantumFrame_def sampleRate_def)
qed

lemma short_accepted:
  "acceptSuspensions (totalDurationSamples (playlist shortStudio) (encoding shortStudio)) []
     (suspensions shortStudio) = [(0, 0)]"
  by (simp add: short_suspensions short_totalDurationSamples quantumFrame_zero
        quantumFrame_one_30th)

subsection \<open>The frames of the render loop\<close>

lemma videoSubmissions_frameCallback:
  "videoSubmissions (frameCallback env st (time, i)) =
     (if canvasAvailable env i
      then [(dbl (time * 1000000), keyFrame i (fps (selectedPreset st)))] else [])"
  by (simp add: frameCallback_def)

lemma videoSubmissions_callbacks:
  "videoSubmissions (concat (map (frameCallback env st) jobs)) =
     map (\<lambda>job. (dbl (fst job * 1000000), keyFrame (snd job) (fps (selectedPreset st))))
       (filter (\<lambda>job. canvasAvailable env (snd job)) jobs)"
proof (induction jobs)
  case Nil
  show ?case by simp
next
  case (Cons job jobs)
  obtain time i where j: "job = (time, i)" by (cases job)
  show ?case
    using Cons.IH
    by (simp add: j videoSubmissions_append videoSubmissions_frameCallback)
qed

lemma videoSubmissions_renderLoop:
  "videoSubmissions (renderLoop env st) =
     map (\<lambda>job. (dbl (fst job * 1000000), keyFrame (snd job) (fps (selectedPreset st))))
       (filter (\<lambda>job. canvasAvailable env (snd job))
          (sort_key (\<lambda>job. quantumFrame (fst job))
             (acceptSuspensions (totalDurationSamples (playlist st) (encoding st)) []
                (suspensions st))))"
proof -
  have "videoSubmissions (map (\<lambda>job. Suspend (fst job)) (suspensions st)) = []"
    by (rule videoSubmissions_none) (auto simp: isEncode_def)
  then show ?thesis
    by (simp add: renderLoop_def videoSubmissions_append videoSubmissions_callbacks)
qed

lemma length_acceptSuspensions:
  "length (acceptSuspensions len taken jobs) \<le> length jobs"
  by (induction jobs arbitrary: taken) (simp_all add: le_SucI)

lemma length_videoSubmissions_renderLoop:
  "length (videoSubmissions (renderLoop env st)) \<le> nat (totalFrames st)"
proof -
  let ?accepted = "acceptSuspensions (totalDurationSamples (playlist st) (encoding st)) []
                (suspensions st)"
  have "length (videoSubmissions (renderLoop env st)) \<le> length ?accepted"
    unfolding videoSubmissions_renderLoop
    using length_filter_le[of _ "sort_key (\<lambda>job. quantumFrame (fst job)) ?accepted"]
    by simp
  also have "\<dots> \<le> length (suspensions st)" by (rule length_acceptSuspensions)
  also have "\<dots> = nat (totalFrames st)" by (simp add: suspensions_def)
  finally show ?thesis .
qed



lemma short_renderLoop_submissions:
  "videoSubmissions (renderLoop workingBrowser shortStudio) = [(0, True)]"
  by (simp add: videoSubmissions_renderLoop short_accepted dbl_zero keyFrame_def)
     (simp add: workingBrowser_def shortStudio_def)


subsection \<open>The frames of a render\<close>

text \<open>
  Claim C1 does not hold of the code. \<open>totalFrames\<close> is computed as claimed (300 in the
  scenario of the specification), but no run submits a single video frame: the
  constructor of the muxer is called with the video codec \<^verbatim>\<open>hvc1\<close> or \<^verbatim>\<open>avc1\<close>, which
  the library does not know, so it throws, the \<^verbatim>\<open>catch\<close> block reports the failure and
  the render loop is never reached. The loop by itself would not submit
  \<open>totalFrames\<close> frames either: it submits one frame, stamped with the suspension
  time in microseconds, for every suspension that the offline context accepts and
  whose canvas is there, at most \<open>totalFrames\<close> frames, and the context rejects a
  suspension whose time, rounded up to a render quantum, is at or past its length. For
  one track of 69/2048 s at 30 fps, \<open>totalFrames\<close> is 2, the second suspension falls
  on the sample frame 1664 of 1618, and the loop submits the single frame 0.
\<close>

theorem render_submits_no_frame:
  "videoSubmissions (fst (startOfflineRendering env st)) = []
   \<and> snd (startOfflineRendering env st) \<noteq> Completed
   \<and> totalFrames scenarioStudio = 300
   \<and> snd (startOfflineRendering workingBrowser scenarioStudio)
       = Failed ''Unsupported video codec: hvc1''
   \<and> videoSubmissions (renderLoop env st) =
       map (\<lambda>job. (dbl (fst job * 1000000), keyFrame (snd job) (fps (selectedPreset st))))
         (filter (\<lambda>job. canvasAvailable env (snd job))
            (sort_key (\<lambda>job. quantumFrame (fst job))
               (acceptSuspensions (totalDurationSamples (playlist st) (encoding st)) []
                  (suspensions st))))
   \<and> length (videoSubmissions (renderLoop env st)) \<le> nat (totalFrames st)
   \<and> totalFrames shortStudio = 2
   \<and> totalDurationSamples (playlist shortStudio) (encoding shortStudio) = 1618
   \<and> suspensions shortStudio = [(0, 0), (4803839602528529 / 144115188075855872, 1)]
   \<and> quantumFrame (4803839602528529 / 144115188075855872) = 1664
   \<and> videoSubmissions (renderLoop workingBrowser shortStudio) = [(0, True)]"
  by (intro conjI)
     (rule startOfflineRendering_no_video startOfflineRendering_not_completed
        scenario_totalFrames scenario_outcome videoSubmissions_renderLoop
        length_videoSubmissions_renderLoop short_totalFrames
        short_totalDurationSamples short_suspensions quantumFrame_one_30th
        short_renderLoop_submissions)+

subsection \<open>Keyframes\<close>


subsection \<open>The rounding error of a double\<close>









subsection \<open>The length of the rendered buffer\<close>












subsection \<open>Progress reaching 100\<close>

lemma startOfflineRendering_events:
  assumes "e \<in> set (fst (startOfflineRendering env st))"
  shows "e \<noteq> SinkClose \<and> e \<noteq> SinkAbort \<and> e \<noteq> MuxerFinalize \<and> e \<noteq> SetRenderProgress 100"
  using startOfflineRendering_events_set[OF assms] renderBody_events_set[of e env st]
  by (auto simp: isGraphEvent_def)

text \<open>
  Claim C7 does not hold of the code. In the recorder revision the stop handler sets
  the progress to 100 first, and only then waits for the write queue and closes the
  sink; when the close fails the progress has been at 100 all the same and the sink is
  left unclosed. In the offline revision the finalizing step flushes both encoders,
  finalizes the muxer, sets the progress to 100 and reports success, and never closes
  the writable stream it created; as the constructor of the muxer throws, no run gets
  that far: no run of the offline render closes the sink, finalizes the muxer or sets
  the progress to 100.
\<close>

theorem progress_100_before_close:
  "take 2 (fst (onstop closeSucceeds s))
     = [SetRenderStatusText FinishingSave, SetRenderProgress 100]
   \<and> fst (onstop True recordingStudio) =
       [SetRenderStatusText FinishingSave, SetRenderProgress 100, AwaitWriteQueue, SinkClose,
        ConsoleLog, AlertDone, SetIsRendering False, SetIsPlaying False, SetRenderProgress 0,
        SetGain 1]
   \<and> occursBefore (SetRenderProgress 100) SinkClose (fst (onstop True recordingStudio))
   \<and> fst (onstop False recordingStudio) =
       [SetRenderStatusText FinishingSave, SetRenderProgress 100, AwaitWriteQueue, SinkClose,
        ConsoleError, AlertCloseFailed, SetIsRendering False, SetIsPlaying False,
        SetRenderProgress 0, SetGain 1]
   \<and> writableStream (snd (onstop False recordingStudio)) = Some Writable
   \<and> finalize =
       [SetRenderStatusText Packaging, VideoFlush, AudioFlush, MuxerFinalize,
        SetRenderProgress 100, AlertDone]
   \<and> SinkClose \<notin> set finalize
   \<and> SinkClose \<notin> set (fst (startOfflineRendering env st))
   \<and> MuxerFinalize \<notin> set (fst (startOfflineRendering env st))
   \<and> SetRenderProgress 100 \<notin> set (fst (startOfflineRendering env st))"
proof -
  have a: "take 2 (fst (onstop closeSucceeds s))
     = [SetRenderStatusText FinishingSave, SetRenderProgress 100]"
    by (simp add: onstop_def)
  have b: "fst (onstop True recordingStudio) =
       [SetRenderStatusText FinishingSave, SetRenderProgress 100, AwaitWriteQueue, SinkClose,
        ConsoleLog, AlertDone, SetIsRendering False, SetIsPlaying False, SetRenderProgress 0,
        SetGain 1]"
    by (simp add: onstop_def recordingStudio_def)
  have c: "occursBefore (SetRenderProgress 100) SinkClose (fst (onstop True recordingStudio))"
    by (simp add: b occursBefore_def)
  have d: "fst (onstop False recordingStudio) =
       [SetRenderStatusText FinishingSave, SetRenderProgress 100, AwaitWriteQueue, SinkClose,
        ConsoleError, AlertCloseFailed, SetIsRendering False, SetIsPlaying False,
        SetRenderProgress 0, SetGain 1]"
    by (simp add: onstop_def recordingStudio_def)
  have e: "writableStream (snd (onstop False recordingStudio)) = Some Writable"
    by (simp add: onstop_def recordingStudio_def)
  have f: "finalize =
       [SetRenderStatusText Packaging, VideoFlush, AudioFlush, MuxerFinalize,
        SetRenderProgress 100, AlertDone]"
    by (simp add: finalize_def)
  have g: "SinkClose \<notin> set finalize" by (simp add: finalize_def)
  have h: "SinkClose \<notin> set (fst (startOfflineRendering env st))"
    "MuxerFinalize \<notin> set (fst (startOfflineRendering env st))"
    "SetRenderProgress 100 \<notin> set (fst (startOfflineRendering env st))"
    using startOfflineRendering_events[of _ env st] by blast+
  show ?thesis
    by (intro conjI) (rule a b c d e f g h)+
qed

subsection \<open>Cancelling a render\<close>

text \<open>
  Claim C9, as amended. \<^verbatim>\<open>cancelRendering\<close> of the recorder revision, in whatever
  state the render is (at any frame): it never closes the sink and never finalizes; a
  writable sink is aborted and ends aborted, so no completed file is left; an active
  recorder is stopped with its stop handler detached, so no further frame is recorded
  and the stop event that follows runs nothing (in particular no close); the speaker
  gain, when there is a gain node, is set back to 1; rendering and playing are switched
  off. \<^verbatim>\<open>cancelRendering\<close> of the offline revision asks for a confirmation and, when it
  is given, reloads the page; when it is not given, nothing else happens. It never
  closes the sink and never finalizes, but it does not abort the sink and does not set
  the speaker gain either.
\<close>

theorem cancel_aborts_sink:
  "SinkClose \<notin> set (fst (cancelRendering s))
   \<and> MuxerFinalize \<notin> set (fst (cancelRendering s))
   \<and> (writableStream s = Some Writable \<longrightarrow>
        SinkAbort \<in> set (fst (cancelRendering s))
        \<and> writableStream (snd (cancelRendering s)) = Some Aborted)
   \<and> writableStream (snd (cancelRendering s)) \<noteq> Some Writable
   \<and> (recorderActive s = Some True \<longrightarrow>
        RecorderStop \<in> set (fst (cancelRendering s))
        \<and> recorderActive (snd (cancelRendering s)) = Some False
        \<and> \<not> onstopAttached (snd (cancelRendering s))
        \<and> fst (fireStop closeSucceeds (snd (cancelRendering s))) = [])
   \<and> recorderActive (snd (cancelRendering s)) \<noteq> Some True
   \<and> (speakerGain s \<noteq> None \<longrightarrow>
        SetGain 1 \<in> set (fst (cancelRendering s))
        \<and> speakerGain (snd (cancelRendering s)) = Some 1)
   \<and> \<not> isRendering (snd (cancelRendering s))
   \<and> \<not> isPlaying (snd (cancelRendering s))
   \<and> SinkClose \<notin> set (cancelRendering_offline confirmed)
   \<and> MuxerFinalize \<notin> set (cancelRendering_offline confirmed)
   \<and> SinkAbort \<notin> set (cancelRendering_offline confirmed)
   \<and> SetGain gain \<notin> set (cancelRendering_offline confirmed)
   \<and> (LocationReload \<in> set (cancelRendering_offline confirmed)) = confirmed
   \<and> hd (cancelRendering_offline confirmed) = Confirm"
  by (cases "writableStream s"; cases "speakerGain s")
     (auto simp: cancelRendering_def abortSink_def fireStop_def cancelRendering_offline_def
           split: sink.splits)

text \<open>
  Claim C9 as stated fails for the offline revision: a confirmed cancellation is the
  confirmation dialog followed by a reload of the page, with no abort of the sink and
  no speaker gain set.
\<close>

theorem cancel_offline_counterexample:
  "cancelRendering_offline True = [Confirm, LocationReload]
   \<and> SinkAbort \<notin> set (cancelRendering_offline True)
   \<and> SetGain 1 \<notin> set (cancelRendering_offline True)"
  by (simp add: cancelRendering_offline_def)

theorem cancel_aborts_sink_witness:
  "writableStream recordingStudio = Some Writable
   \<and> recorderActive recordingStudio = Some True
   \<and> speakerGain recordingStudio \<noteq> None
   \<and> fst (cancelRendering recordingStudio) =
       [RecorderStop, SinkAbort, SetIsRendering False, SetIsPlaying False, AudioPause, SetGain 1]
   \<and> writableStream (snd (cancelRendering recordingStudio)) = Some Aborted
   \<and> recorderActive (snd (cancelRendering recordingStudio)) = Some False
   \<and> fst (fireStop True (snd (cancelRendering recordingStudio))) = []
   \<and> speakerGain (snd (cancelRendering recordingStudio)) = Some 1
   \<and> LocationReload \<in> set (cancelRendering_offline True)"
proof -
  have h: "writableStream recordingStudio = Some Writable"
    "recorderActive recordingStudio = Some True" "speakerGain recordingStudio \<noteq> None"
    by (simp_all add: recordingStudio_def)
  have tr: "fst (cancelRendering recordingStudio) =
       [RecorderStop, SinkAbort, SetIsRendering False, SetIsPlaying False, AudioPause, SetGain 1]"
    by (simp add: cancelRendering_def recordingStudio_def)
  note t = cancel_aborts_sink[of recordingStudio True True]
  from t h(1) have a: "writableStream (snd (cancelRendering recordingStudio)) = Some Aborted"
    by blast
  from t h(2) have b: "recorderActive (snd (cancelRendering recordingStudio)) = Some False"
    "fst (fireStop True (snd (cancelRendering recordingStudio))) = []"
    by blast+
  from t h(3) have c: "speakerGain (snd (cancelRendering recordingStudio)) = Some 1"
    by blast
  from t have d: "LocationReload \<in> set (cancelRendering_offline True)"
    by blast
  show ?thesis
    by (intro conjI) (rule h tr a b c d)+
qed

end
